theory Spec2Isabelle
  imports Main
begin

section \<open>The puzzle interface\<close>

text \<open>
  The engines of \<^verbatim>\<open>puzzle_tools.py\<close> work on any subclass of the abstract class
  \<^verbatim>\<open>Puzzle\<close>. They use four of its methods: \<^verbatim>\<open>is_solved()\<close>, \<^verbatim>\<open>extensions()\<close>,
  \<^verbatim>\<open>__str__\<close> and (in \<^verbatim>\<open>PuzzleNode.__eq__\<close>) \<^verbatim>\<open>__eq__\<close>. The base class
  leaves them abstract, so they are parameters here: a puzzle class is the record of
  these four methods over its type of configurations \<open>'p\<close>.
\<close>

record 'p Puzzle =
  is_solved :: "'p \<Rightarrow> bool"
  extensions :: "'p \<Rightarrow> 'p list"
  str :: "'p \<Rightarrow> string"
  eq :: "'p \<Rightarrow> 'p \<Rightarrow> bool"

section \<open>Search tree nodes\<close>

text \<open>
  A \<^verbatim>\<open>PuzzleNode\<close> is a mutable object that other nodes refer to (\<^verbatim>\<open>parent\<close>,
  \<^verbatim>\<open>children\<close>). Objects live in a store: the list of all nodes created so far. A
  reference is the position of the object in the store, and creating a node appends it.
  Every reference the engines hold is the position of a node created before (the
  invariant \<open>bfs_inv\<close> below), so \<open>h ! a\<close> is the node that \<open>a\<close> refers to.
\<close>

record 'p PuzzleNode =
  puzzle :: "'p"
  children :: "nat list"
  parent :: "nat option"

type_synonym 'p store = "'p PuzzleNode list"

text \<open>\<^verbatim>\<open>PuzzleNode.__init__(puzzle, children=None, parent=None)\<close>\<close>

definition new_PuzzleNode ::
  "'p store \<Rightarrow> 'p \<Rightarrow> nat list option \<Rightarrow> nat option \<Rightarrow> 'p store \<times> nat" where
  "new_PuzzleNode h p cs par =
     (h @ [\<lparr>puzzle = p,
            children = (case cs of None \<Rightarrow> [] | Some l \<Rightarrow> l),
            parent = par\<rparr>],
      length h)"

section \<open>The state of a search\<close>

text \<open>
  \<open>work\<close> is the deque of the engine, its left end first. \<open>expanded\<close> is not a variable
  of the source: it records, in call order, every configuration on which the engine has
  called \<^verbatim>\<open>extensions()\<close>.
\<close>

record 'p search =
  store :: "'p store"
  work :: "nat list"
  visited :: "string set"
  expanded :: "'p list"

section \<open>Depth-first search\<close>

text \<open>
  \<^verbatim>\<open>for p in puzzle.extensions(): stack.append(PuzzleNode(p, parent=PuzzleNode(puzzle)))\<close>
\<close>

fun dfs_seed :: "'p \<Rightarrow> 'p list \<Rightarrow> 'p store \<times> nat list \<Rightarrow> 'p store \<times> nat list" where
  "dfs_seed p0 [] (h, stack) = (h, stack)"
| "dfs_seed p0 (p # ps) (h, stack) =
     (let (h1, root) = new_PuzzleNode h p0 None None;
          (h2, n) = new_PuzzleNode h1 p None (Some root)
      in dfs_seed p0 ps (h2, stack @ [n]))"

text \<open>
  \<^verbatim>\<open>for p in current.puzzle.extensions(): stack.appendleft(PuzzleNode(p, parent=current))\<close>
\<close>

fun dfs_push :: "nat \<Rightarrow> 'p list \<Rightarrow> 'p store \<times> nat list \<Rightarrow> 'p store \<times> nat list" where
  "dfs_push current [] (h, stack) = (h, stack)"
| "dfs_push current (p # ps) (h, stack) =
     (let (h1, n) = new_PuzzleNode h p None (Some current)
      in dfs_push current ps (h1, n # stack))"

text \<open>
  \<^verbatim>\<open>while node.parent is not None: child = node; node = node.parent;
  node.children.append(child)\<close>. The loop does not end on a cyclic parent chain:
  \<open>None\<close> is "does not return".
\<close>

partial_function (option) dfs_path_maker :: "'p store \<Rightarrow> nat \<Rightarrow> ('p store \<times> nat) option" where
  "dfs_path_maker h node =
     (case parent (h ! node) of
        None \<Rightarrow> Some (h, node)
      | Some par \<Rightarrow>
          dfs_path_maker (h[par := (h ! par)\<lparr>children := children (h ! par) @ [node]\<rparr>]) par)"

declare dfs_path_maker.simps [code]

text \<open>
  One pass of the \<^verbatim>\<open>while len(stack) > 0\<close> loop of \<^verbatim>\<open>depth_first_solve\<close> in two
  parts: \<open>dfs_mark\<close> is the state after \<^verbatim>\<open>stack.popleft()\<close> and
  \<^verbatim>\<open>visited.add(str(current.puzzle))\<close>, \<open>dfs_expand\<close> is the \<^verbatim>\<open>for\<close> loop over
  \<^verbatim>\<open>current.puzzle.extensions()\<close>.
\<close>

definition dfs_mark :: "'p Puzzle \<Rightarrow> 'p search \<Rightarrow> nat \<Rightarrow> nat list \<Rightarrow> 'p search" where
  "dfs_mark P s current stack =
     s\<lparr>work := stack, visited := insert (str P (puzzle (store s ! current))) (visited s)\<rparr>"

definition dfs_expand :: "'p Puzzle \<Rightarrow> 'p search \<Rightarrow> nat \<Rightarrow> 'p search" where
  "dfs_expand P s current =
     (let (h, stack) = dfs_push current (extensions P (puzzle (store s ! current)))
                         (store s, work s)
      in s\<lparr>store := h, work := stack, expanded := expanded s @ [puzzle (store s ! current)]\<rparr>)"

text \<open>
  The loop itself. The result is the final state and the returned value: \<open>Some root\<close>
  for a node, \<open>None\<close> for Python's \<^verbatim>\<open>None\<close>. The outer \<open>option\<close> is \<open>None\<close> when the
  loop runs forever.
\<close>

partial_function (option) dfs_loop ::
  "'p Puzzle \<Rightarrow> 'p search \<Rightarrow> ('p search \<times> nat option) option" where
  "dfs_loop Pz s =
     (case work s of
        [] \<Rightarrow> Some (s, None)
      | current # stack \<Rightarrow>
          if str Pz (puzzle (store s ! current)) \<notin> visited s then
            if is_solved Pz (puzzle (store s ! current)) then
              (case dfs_path_maker (store s) current of
                 None \<Rightarrow> None
               | Some (h, root) \<Rightarrow> Some ((dfs_mark Pz s current stack)\<lparr>store := h\<rparr>, Some root))
            else dfs_loop Pz (dfs_expand Pz (dfs_mark Pz s current stack) current)
          else dfs_loop Pz (s\<lparr>work := stack\<rparr>))"

declare dfs_loop.simps [code]

definition depth_first_solve :: "'p Puzzle \<Rightarrow> 'p \<Rightarrow> ('p search \<times> nat option) option" where
  "depth_first_solve P p =
     (if is_solved P p then
        (let (h, n) = new_PuzzleNode [] p None None
         in Some (\<lparr>store = h, work = [], visited = {}, expanded = []\<rparr>, Some n))
      else
        (let (h, stack) = dfs_seed p (extensions P p) ([], [])
         in dfs_loop P \<lparr>store = h, work = stack, visited = {str P p}, expanded = [p]\<rparr>))"

section \<open>Breadth-first search\<close>

text \<open>
  \<^verbatim>\<open>for ext in cwn.puzzle.extensions(): if str(ext) not in visited:
  pn = PuzzleNode(ext); pn.parent = cwn; que.append(pn)\<close>
\<close>

fun bfs_enqueue ::
  "'p Puzzle \<Rightarrow> string set \<Rightarrow> nat \<Rightarrow> 'p list \<Rightarrow> 'p store \<times> nat list \<Rightarrow> 'p store \<times> nat list" where
  "bfs_enqueue P vis cwn [] (h, que) = (h, que)"
| "bfs_enqueue P vis cwn (ext # exts) (h, que) =
     (if str P ext \<notin> vis then
        (let (h1, pn) = new_PuzzleNode h ext None None;
             h2 = h1[pn := (h1 ! pn)\<lparr>parent := Some cwn\<rparr>]
         in bfs_enqueue P vis cwn exts (h2, que @ [pn]))
      else bfs_enqueue P vis cwn exts (h, que))"

text \<open>
  \<^verbatim>\<open>while snode.parent: snode.parent.children = [snode]; snode = snode.parent\<close>.
  A \<^verbatim>\<open>PuzzleNode\<close> defines neither \<^verbatim>\<open>__bool__\<close> nor \<^verbatim>\<open>__len__\<close>, so a node is true.
\<close>

partial_function (option) bfs_rewire :: "'p store \<Rightarrow> nat \<Rightarrow> ('p store \<times> nat) option" where
  "bfs_rewire h snode =
     (case parent (h ! snode) of
        None \<Rightarrow> Some (h, snode)
      | Some par \<Rightarrow> bfs_rewire (h[par := (h ! par)\<lparr>children := [snode]\<rparr>]) par)"

declare bfs_rewire.simps [code]

text \<open>
  The first part of one pass of the \<^verbatim>\<open>while len(que) != 0\<close> loop of
  \<^verbatim>\<open>breadth_first_search\<close>: \<^verbatim>\<open>que.popleft()\<close>, \<^verbatim>\<open>visited.add(str(cwn.puzzle))\<close> and the
  \<^verbatim>\<open>for\<close> loop over \<^verbatim>\<open>cwn.puzzle.extensions()\<close>.
\<close>

definition bfs_expand :: "'p Puzzle \<Rightarrow> 'p search \<Rightarrow> nat \<Rightarrow> nat list \<Rightarrow> 'p search" where
  "bfs_expand P s cwn que =
     (let vis = insert (str P (puzzle (store s ! cwn))) (visited s);
          (h, que') = bfs_enqueue P vis cwn (extensions P (puzzle (store s ! cwn))) (store s, que)
      in s\<lparr>store := h, work := que', visited := vis,
           expanded := expanded s @ [puzzle (store s ! cwn)]\<rparr>)"

text \<open>
  The loop itself, with the test \<^verbatim>\<open>if cwn.puzzle.is_solved()\<close> after the expansion. It
  returns the list \<^verbatim>\<open>[snode]\<close>, or \<^verbatim>\<open>None\<close> by falling off the end of the function.
\<close>

partial_function (option) bfs_loop ::
  "'p Puzzle \<Rightarrow> 'p search \<Rightarrow> ('p search \<times> nat list option) option" where
  "bfs_loop Pz s =
     (case work s of
        [] \<Rightarrow> Some (s, None)
      | cwn # que \<Rightarrow>
          if is_solved Pz (puzzle (store (bfs_expand Pz s cwn que) ! cwn)) then
            (case bfs_rewire (store (bfs_expand Pz s cwn que)) cwn of
               None \<Rightarrow> None
             | Some (h, snode) \<Rightarrow> Some ((bfs_expand Pz s cwn que)\<lparr>store := h\<rparr>, Some [snode]))
          else bfs_loop Pz (bfs_expand Pz s cwn que))"

declare bfs_loop.simps [code]

definition breadth_first_search ::
  "'p Puzzle \<Rightarrow> 'p store \<Rightarrow> nat \<Rightarrow> ('p search \<times> nat list option) option" where
  "breadth_first_search P h par =
     bfs_loop P \<lparr>store = h, work = [par], visited = {}, expanded = []\<rparr>"

text \<open>\<^verbatim>\<open>if path: return path[0] else: return None\<close>: \<^verbatim>\<open>None\<close> and \<^verbatim>\<open>[]\<close> are false.\<close>

definition breadth_first_solve :: "'p Puzzle \<Rightarrow> 'p \<Rightarrow> ('p search \<times> nat option) option" where
  "breadth_first_solve P p =
     (let (h, n) = new_PuzzleNode [] p None None
      in case breadth_first_search P h n of
           None \<Rightarrow> None
         | Some (s, path) \<Rightarrow>
             Some (s, case path of None \<Rightarrow> None | Some [] \<Rightarrow> None | Some (r # _) \<Rightarrow> Some r))"

section \<open>Equality of search tree nodes\<close>

text \<open>
  The argument \<^verbatim>\<open>other\<close> of \<^verbatim>\<open>PuzzleNode.__eq__\<close> is a \<^verbatim>\<open>PuzzleNode\<close> or an object of
  any other type.
\<close>

datatype pyobj = Node nat | Other

text \<open>
  \<^verbatim>\<open>x in xs\<close> on a list walks through the items \<open>e\<close> of \<open>xs\<close> and stops at the first
  one with \<^verbatim>\<open>e is x or e == x\<close>: the identity of the two objects is tested first, and
  \<^verbatim>\<open>==\<close> is \<^verbatim>\<open>e.__eq__(x)\<close>, the method of the item with the needle as its argument
  (\<^verbatim>\<open>list.__contains__\<close> of CPython 3.9 and later). \<open>eqf self other\<close> stands for
  \<^verbatim>\<open>self.__eq__(other)\<close> on nodes, and \<open>None\<close> is an exception that it raises.
\<close>

fun py_in :: "(nat \<Rightarrow> nat \<Rightarrow> bool option) \<Rightarrow> nat \<Rightarrow> nat list \<Rightarrow> bool option" where
  "py_in eqf x [] = Some False"
| "py_in eqf x (e # es) =
     (if e = x then Some True
      else case eqf e x of
             None \<Rightarrow> None
           | Some True \<Rightarrow> Some True
           | Some False \<Rightarrow> py_in eqf x es)"

text \<open>
  \<^verbatim>\<open>all([x in ys for x in xs])\<close>: the list comprehension evaluates every test before
  \<^verbatim>\<open>all\<close> looks at the first.
\<close>

fun py_all_in :: "(nat \<Rightarrow> nat \<Rightarrow> bool option) \<Rightarrow> nat list \<Rightarrow> nat list \<Rightarrow> bool option" where
  "py_all_in eqf [] ys = Some True"
| "py_all_in eqf (x # xs) ys =
     (case py_in eqf x ys of
        None \<Rightarrow> None
      | Some b \<Rightarrow> (case py_all_in eqf xs ys of None \<Rightarrow> None | Some bs \<Rightarrow> Some (b \<and> bs)))"

text \<open>
  \<^verbatim>\<open>PuzzleNode.__eq__(self, other)\<close>. The method calls itself on the children of the two
  nodes. The first argument bounds the nesting of these calls, as the recursion limit
  of the interpreter does (\<^verbatim>\<open>sys.setrecursionlimit(10**6)\<close>); \<open>None\<close> is the
  \<^verbatim>\<open>RecursionError\<close> raised when the bound is reached. The conjuncts of the \<^verbatim>\<open>and\<close>
  chain are evaluated from left to right, up to the first false one.
\<close>

fun PuzzleNode_eq :: "nat \<Rightarrow> 'p Puzzle \<Rightarrow> 'p store \<Rightarrow> nat \<Rightarrow> pyobj \<Rightarrow> bool option" where
  "PuzzleNode_eq 0 P h self other = None"
| "PuzzleNode_eq (Suc d) P h self Other = Some False"
| "PuzzleNode_eq (Suc d) P h self (Node other) =
     (if \<not> eq P (puzzle (h ! self)) (puzzle (h ! other)) then Some False
      else case py_all_in (\<lambda>n m. PuzzleNode_eq d P h n (Node m))
                  (children (h ! other)) (children (h ! self)) of
             None \<Rightarrow> None
           | Some False \<Rightarrow> Some False
           | Some True \<Rightarrow>
               py_all_in (\<lambda>n m. PuzzleNode_eq d P h n (Node m))
                 (children (h ! self)) (children (h ! other)))"

section \<open>The word-ladder puzzle\<close>

record WordLadderPuzzle =
  from_word :: string
  to_word :: string
  word_set :: "string set"

definition chars :: string where
  "chars = ''abcdefghijklmnopqrstuvwxyz''"

definition WordLadderPuzzle_str :: "WordLadderPuzzle \<Rightarrow> string" where
  "WordLadderPuzzle_str w = from_word w @ '' -> '' @ to_word w"

definition WordLadderPuzzle_extensions :: "WordLadderPuzzle \<Rightarrow> WordLadderPuzzle list" where
  "WordLadderPuzzle_extensions w =
     concat (map (\<lambda>i.
       concat (map (\<lambda>letter.
         (let word = take i (from_word w) @ [letter] @ drop (i + 1) (from_word w)
          in if word \<in> word_set w \<and> word \<noteq> from_word w
             then [\<lparr>from_word = word, to_word = to_word w, word_set = word_set w\<rparr>]
             else [])) chars)) [0..<length (from_word w)])"

definition WordLadderPuzzle_is_solved :: "WordLadderPuzzle \<Rightarrow> bool" where
  "WordLadderPuzzle_is_solved w = (from_word w = to_word w)"

definition WordLadderPuzzle_eq :: "WordLadderPuzzle \<Rightarrow> WordLadderPuzzle \<Rightarrow> bool" where
  "WordLadderPuzzle_eq w other =
     (from_word w = from_word other \<and> to_word w = to_word other \<and> word_set w = word_set other)"

definition WordLadder :: "WordLadderPuzzle Puzzle" where
  "WordLadder =
     \<lparr>is_solved = WordLadderPuzzle_is_solved,
      extensions = WordLadderPuzzle_extensions,
      str = WordLadderPuzzle_str,
      eq = WordLadderPuzzle_eq\<rparr>"

section \<open>Vocabulary of the verification\<close>

subsection \<open>The state graph of a puzzle\<close>

text \<open>
  \<open>succs\<close> is the one-move relation of a puzzle, \<open>reachable\<close> the set of states
  reachable from a state by repeated \<^verbatim>\<open>extensions()\<close>, and \<open>dist\<close> the least number of
  moves that lead from \<open>p0\<close> to a reachable state.
\<close>

definition succs :: "'p Puzzle \<Rightarrow> ('p \<times> 'p) set" where
  "succs P = {(s, t). t \<in> set (extensions P s)}"

definition reachable :: "'p Puzzle \<Rightarrow> 'p \<Rightarrow> 'p set" where
  "reachable P p = (succs P)\<^sup>* `` {p}"

definition dist :: "'p Puzzle \<Rightarrow> 'p \<Rightarrow> 'p \<Rightarrow> nat" where
  "dist P p0 t = (LEAST k. (p0, t) \<in> succs P ^^ k)"

text \<open>
  Two puzzle classes agree on a set of states when \<^verbatim>\<open>is_solved()\<close>, \<^verbatim>\<open>extensions()\<close> and
  \<^verbatim>\<open>str()\<close> return the same on each of them.
\<close>

definition agree :: "'p Puzzle \<Rightarrow> 'p Puzzle \<Rightarrow> 'p set \<Rightarrow> bool" where
  "agree P P' S \<longleftrightarrow>
     (\<forall>t\<in>S. is_solved P' t = is_solved P t \<and> extensions P' t = extensions P t \<and>
            str P' t = str P t)"

subsection \<open>Stores during a search\<close>

text \<open>
  The stores that the engines build before they reconstruct a path: no node has
  children, a node without parent holds the initial state, and every other node was
  created after its parent and holds an extension of the state of its parent. \<open>pdec\<close>
  is the part of this that makes a walk along the \<open>parent\<close> fields end.
\<close>

definition wf_store :: "'p Puzzle \<Rightarrow> 'p \<Rightarrow> 'p store \<Rightarrow> bool" where
  "wf_store P p0 h \<longleftrightarrow>
     (\<forall>a<length h. children (h ! a) = [] \<and>
        (case parent (h ! a) of
           None \<Rightarrow> puzzle (h ! a) = p0
         | Some q \<Rightarrow> q < a \<and> puzzle (h ! a) \<in> set (extensions P (puzzle (h ! q)))))"

definition pdec :: "'p store \<Rightarrow> bool" where
  "pdec h \<longleftrightarrow> (\<forall>b<length h. \<forall>q. parent (h ! b) = Some q \<longrightarrow> q < b)"

text \<open>
  \<open>up h a\<close> is the list of the nodes from \<open>a\<close> up to its root along the \<open>parent\<close>
  fields, as long as the parent was created before the node, and \<open>depth h a\<close> the
  number of its edges.
\<close>

function up :: "'p store \<Rightarrow> nat \<Rightarrow> nat list" where
  "up h a = (case parent (h ! a) of
               None \<Rightarrow> [a]
             | Some q \<Rightarrow> if q < a then a # up h q else [a])"
  by pat_completeness auto
termination
  by (relation "measure snd") auto

declare up.simps [simp del]

definition depth :: "'p store \<Rightarrow> nat \<Rightarrow> nat" where
  "depth h a = length (up h a) - 1"

subsection \<open>Returned paths\<close>

text \<open>
  \<open>solution_chain P h path\<close>: the nodes of \<open>path\<close> form a simple chain in the store
  \<open>h\<close> that ends in a solved leaf. Every node but the last has exactly one child, the
  next node of the list, whose parent it is and whose state is one of the extensions of
  its own state; the last node has no children and its state is solved.
\<close>

fun solution_chain :: "'p Puzzle \<Rightarrow> 'p store \<Rightarrow> nat list \<Rightarrow> bool" where
  "solution_chain P h [] = False"
| "solution_chain P h [a] = (children (h ! a) = [] \<and> is_solved P (puzzle (h ! a)))"
| "solution_chain P h (a # b # as) =
     (children (h ! a) = [b] \<and> parent (h ! b) = Some a \<and>
      puzzle (h ! b) \<in> set (extensions P (puzzle (h ! a))) \<and>
      solution_chain P h (b # as))"

text \<open>
  The states along the chain of first children from the returned node, when an engine
  returns a node. The first argument of \<open>follow\<close> bounds the length of the walk.
\<close>

fun follow :: "nat \<Rightarrow> 'p store \<Rightarrow> nat \<Rightarrow> nat list" where
  "follow 0 h a = [a]"
| "follow (Suc n) h a = (case children (h ! a) of [] \<Rightarrow> [a] | c # _ \<Rightarrow> a # follow n h c)"

definition returned_states :: "('p search \<times> nat option) option \<Rightarrow> 'p list option" where
  "returned_states res =
     (case res of
        Some (s, Some r) \<Rightarrow>
          Some (map (\<lambda>a. puzzle (store s ! a)) (follow (length (store s)) (store s) r))
      | _ \<Rightarrow> None)"

subsection \<open>Invariants of the two loops\<close>

text \<open>
  At the head of the loop of either engine the store is well formed and the work list
  holds references to nodes of the store (\<open>bfs_inv\<close>). In the depth-first loop,
  moreover, the strings of the expanded states are pairwise different and all in
  \<open>visited\<close> (\<open>dfs_inv\<close>).
\<close>

definition bfs_inv :: "'p Puzzle \<Rightarrow> 'p \<Rightarrow> 'p search \<Rightarrow> bool" where
  "bfs_inv P p0 s \<longleftrightarrow>
     wf_store P p0 (store s) \<and> (\<forall>a\<in>set (work s). a < length (store s))"

definition dfs_inv :: "'p Puzzle \<Rightarrow> 'p \<Rightarrow> 'p search \<Rightarrow> bool" where
  "dfs_inv P p0 s \<longleftrightarrow>
     wf_store P p0 (store s) \<and> (\<forall>a\<in>set (work s). a < length (store s)) \<and>
     distinct (map (str P) (expanded s)) \<and> str P ` set (expanded s) \<subseteq> visited s"

text \<open>
  The extensions of the node \<open>c\<close> for which \<open>breadth_first_search\<close> creates a node:
  those whose string is not in \<open>visited\<close> once the string of \<open>c\<close> is.
\<close>

definition unseen :: "'p Puzzle \<Rightarrow> 'p search \<Rightarrow> nat \<Rightarrow> 'p list" where
  "unseen P s c =
     filter (\<lambda>e. str P e \<notin> insert (str P (puzzle (store s ! c))) (visited s))
       (extensions P (puzzle (store s ! c)))"

text \<open>
  The invariant behind the shortest path of the breadth-first search. The depths of the
  nodes in the queue increase along the queue, by at most one in all. A reachable state
  whose string is visited is not solved and is no farther from the initial state than
  the nodes of the queue are deep. For a reachable state whose string is not visited,
  some node of the queue lies on a shortest path to it, at its own depth.
\<close>

definition bfs_opt :: "'p Puzzle \<Rightarrow> 'p \<Rightarrow> 'p search \<Rightarrow> bool" where
  "bfs_opt P p0 s \<longleftrightarrow>
     sorted (map (depth (store s)) (work s)) \<and>
     (\<forall>a\<in>set (work s). depth (store s) a \<le> Suc (depth (store s) (hd (work s)))) \<and>
     (\<forall>t\<in>reachable P p0. str P t \<in> visited s \<longrightarrow>
        \<not> is_solved P t \<and> (\<forall>a\<in>set (work s). dist P p0 t \<le> depth (store s) a)) \<and>
     (\<forall>t\<in>reachable P p0. str P t \<notin> visited s \<longrightarrow>
        (\<exists>a\<in>set (work s). \<exists>j. (puzzle (store s ! a), t) \<in> succs P ^^ j \<and>
                                depth (store s) a + j = dist P p0 t))"

subsection \<open>Stores compared by node equality\<close>

text \<open>
  Stores whose \<open>children\<close> lists hold references to nodes of the store, and stores in
  which moreover every child was created after its parent, as in the stores the engines
  build. \<open>same_but_parents\<close> relates two stores that differ at most in the \<open>parent\<close>
  fields of their nodes.
\<close>

definition closed_store :: "'p store \<Rightarrow> bool" where
  "closed_store h \<longleftrightarrow> (\<forall>i\<in>set [0..<length h]. \<forall>c\<in>set (children (h ! i)). c < length h)"

definition acyclic_store :: "'p store \<Rightarrow> bool" where
  "acyclic_store h \<longleftrightarrow>
     (\<forall>i\<in>set [0..<length h]. \<forall>c\<in>set (children (h ! i)). i < c \<and> c < length h)"

definition same_but_parents :: "'p store \<Rightarrow> 'p store \<Rightarrow> bool" where
  "same_but_parents h h' \<longleftrightarrow> map puzzle h' = map puzzle h \<and> map children h' = map children h"

subsection \<open>Example inputs\<close>

text \<open>
  \<open>on_no\<close> is the puzzle of the doctest of \<^verbatim>\<open>PuzzleNode.__eq__\<close>; \<open>aa_cc\<close> and \<open>aa_bb\<close>
  are word ladders over the words \<open>aa\<close>, \<open>ab\<close>, \<open>ac\<close> and \<open>ab\<close>, \<open>bb\<close>, \<open>cb\<close>.
\<close>

definition on_no :: WordLadderPuzzle where
  "on_no = \<lparr>from_word = ''on'', to_word = ''no'', word_set = {''on'', ''no'', ''oo''}\<rparr>"

definition aa_cc :: WordLadderPuzzle where
  "aa_cc = \<lparr>from_word = ''aa'', to_word = ''cc'', word_set = {''aa'', ''ab'', ''ac''}\<rparr>"

definition aa_bb :: WordLadderPuzzle where
  "aa_bb = \<lparr>from_word = ''aa'', to_word = ''bb'', word_set = {''ab'', ''bb'', ''cb''}\<rparr>"

text \<open>
  The state of \<open>depth_first_solve\<close> on \<open>aa_bb\<close> when it enters its loop: the work list
  holds the node of \<open>ab\<close>, the only extension of \<open>aa\<close>.
\<close>

definition aa_bb_entry :: "WordLadderPuzzle search" where
  "aa_bb_entry =
     \<lparr>store = [\<lparr>puzzle = aa_bb, children = [], parent = None\<rparr>,
               \<lparr>puzzle = aa_bb\<lparr>from_word := ''ab''\<rparr>, children = [], parent = Some 0\<rparr>],
      work = [1], visited = {''aa -> bb''}, expanded = [aa_bb]\<rparr>"

text \<open>
  Five nodes: two nodes of the puzzle \<open>on_no\<close> with the same two children, listed in
  different orders and once with a repetition, a third node of the puzzle \<open>on_no\<close> with
  only one of these children, and two leaves. \<open>eq_store'\<close> is the same store with other
  parents.
\<close>

definition eq_store :: "WordLadderPuzzle store" where
  "eq_store =
     [\<lparr>puzzle = on_no, children = [3, 4], parent = None\<rparr>,
      \<lparr>puzzle = on_no, children = [4, 3, 3], parent = Some 0\<rparr>,
      \<lparr>puzzle = on_no, children = [3], parent = None\<rparr>,
      \<lparr>puzzle = aa_bb, children = [], parent = Some 0\<rparr>,
      \<lparr>puzzle = aa_cc, children = [], parent = Some 1\<rparr>]"

definition eq_store' :: "WordLadderPuzzle store" where
  "eq_store' =
     [\<lparr>puzzle = on_no, children = [3, 4], parent = Some 1\<rparr>,
      \<lparr>puzzle = on_no, children = [4, 3, 3], parent = None\<rparr>,
      \<lparr>puzzle = on_no, children = [3], parent = Some 0\<rparr>,
      \<lparr>puzzle = aa_bb, children = [], parent = Some 1\<rparr>,
      \<lparr>puzzle = aa_cc, children = [], parent = None\<rparr>]"

text \<open>
  A puzzle over the states \<open>0\<close> to \<open>4\<close> whose states \<open>0\<close> and \<open>1\<close> have the same
  string. Its moves are \<open>0 \<rightarrow> 1 \<rightarrow> 4\<close> and \<open>0 \<rightarrow> 2 \<rightarrow> 3 \<rightarrow> 4\<close>, and \<open>4\<close> is solved.
\<close>

definition collide :: "nat Puzzle" where
  "collide =
     \<lparr>is_solved = (\<lambda>n. n = 4),
      extensions = (\<lambda>n. if n = 0 then [1, 2] else if n = 1 then [4] else if n = 2 then [3]
                         else if n = 3 then [4] else []),
      str = (\<lambda>n. if n = 0 \<or> n = 1 then ''a'' else replicate n CHR ''b''),
      eq = (=)\<rparr>"

text \<open>
  A puzzle class that behaves as \<open>WordLadder\<close> on the ladders whose target is \<open>no\<close> and
  calls every other ladder solved.
\<close>

definition WordLadder_other :: "WordLadderPuzzle Puzzle" where
  "WordLadder_other =
     WordLadder\<lparr>is_solved := (\<lambda>w. to_word w \<noteq> ''no'' \<or> WordLadderPuzzle_is_solved w)\<rparr>"

section \<open>Lemmas\<close>

subsection \<open>Nodes created by the engines\<close>

lemma new_PuzzleNode_simps [simp]:
  "fst (new_PuzzleNode h p None par) = h @ [\<lparr>puzzle = p, children = [], parent = par\<rparr>]"
  "snd (new_PuzzleNode h p None par) = length h"
  by (simp_all add: new_PuzzleNode_def)

lemma dfs_push_store:
  "fst (dfs_push c ps (h, st)) = h @ map (\<lambda>p. \<lparr>puzzle = p, children = [], parent = Some c\<rparr>) ps"
  by (induction ps arbitrary: h st) (simp_all add: new_PuzzleNode_def)

lemma dfs_push_work:
  "snd (dfs_push c ps (h, st)) = rev [length h..<length h + length ps] @ st"
proof (induction ps arbitrary: h st)
  case Nil
  show ?case by simp
next
  case (Cons p ps)
  have "[length h..<length h + Suc (length ps)] = length h # [Suc (length h)..<Suc (length h) + length ps]"
    by (simp add: upt_rec)
  then show ?case using Cons by (simp add: new_PuzzleNode_def)
qed

lemma bfs_enqueue_store:
  "fst (bfs_enqueue P vis c es (h, q)) =
     h @ map (\<lambda>e. \<lparr>puzzle = e, children = [], parent = Some c\<rparr>) (filter (\<lambda>e. str P e \<notin> vis) es)"
  by (induction es arbitrary: h q) (simp_all add: new_PuzzleNode_def)

lemma bfs_enqueue_work:
  "snd (bfs_enqueue P vis c es (h, q)) =
     q @ [length h..<length h + length (filter (\<lambda>e. str P e \<notin> vis) es)]"
proof (induction es arbitrary: h q)
  case Nil
  show ?case by simp
next
  case (Cons e es)
  have "[length h..<length h + Suc n] = length h # [Suc (length h)..<Suc (length h) + n]" for n
    by (simp add: upt_rec)
  then show ?case using Cons by (simp add: new_PuzzleNode_def)
qed

lemma wf_store_Nil: "wf_store P p0 []"
  by (simp add: wf_store_def)

lemma wf_store_append:
  assumes "wf_store P p0 h"
    and "\<forall>n\<in>set ns. children n = [] \<and>
           (case parent n of None \<Rightarrow> puzzle n = p0
            | Some q \<Rightarrow> q < length h \<and> puzzle n \<in> set (extensions P (puzzle (h ! q))))"
  shows "wf_store P p0 (h @ ns)"
  unfolding wf_store_def
proof (intro allI impI)
  fix a assume a: "a < length (h @ ns)"
  show "children ((h @ ns) ! a) = [] \<and>
        (case parent ((h @ ns) ! a) of None \<Rightarrow> puzzle ((h @ ns) ! a) = p0
         | Some q \<Rightarrow> q < a \<and> puzzle ((h @ ns) ! a) \<in> set (extensions P (puzzle ((h @ ns) ! q))))"
  proof (cases "a < length h")
    case True
    then show ?thesis using assms(1)
      by (auto simp: wf_store_def nth_append split: option.splits)
  next
    case False
    then have "(h @ ns) ! a \<in> set ns" using a by (simp add: nth_append)
    with assms(2) False show ?thesis
      by (auto simp: nth_append split: option.splits)
  qed
qed

subsection \<open>The seed of the depth-first search and parent chains\<close>

lemma dfs_seed_inv:
  assumes "wf_store P p0 h" "\<forall>a\<in>set st. a < length h" "set ps \<subseteq> set (extensions P p0)"
  shows "wf_store P p0 (fst (dfs_seed p0 ps (h, st))) \<and>
         (\<forall>a\<in>set (snd (dfs_seed p0 ps (h, st))). a < length (fst (dfs_seed p0 ps (h, st)))) \<and>
         map (\<lambda>a. puzzle (fst (dfs_seed p0 ps (h, st)) ! a)) (snd (dfs_seed p0 ps (h, st))) =
           map (\<lambda>a. puzzle (h ! a)) st @ ps"
  using assms
proof (induction ps arbitrary: h st)
  case Nil
  then show ?case by simp
next
  case (Cons p ps)
  let ?h1 = "h @ [\<lparr>puzzle = p0, children = [], parent = None\<rparr>]"
  let ?h2 = "?h1 @ [\<lparr>puzzle = p, children = [], parent = Some (length h)\<rparr>]"
  let ?st2 = "st @ [Suc (length h)]"
  have step: "dfs_seed p0 (p # ps) (h, st) = dfs_seed p0 ps (?h2, ?st2)"
    by (simp add: new_PuzzleNode_def)
  have wf1: "wf_store P p0 ?h1"
    by (rule wf_store_append[OF Cons.prems(1)]) simp
  have wf2: "wf_store P p0 ?h2"
    by (rule wf_store_append[OF wf1]) (use Cons.prems(3) in simp)
  have refs2: "\<forall>a\<in>set ?st2. a < length ?h2"
    using Cons.prems(2) by auto
  have old: "map (\<lambda>a. puzzle (?h2 ! a)) ?st2 = map (\<lambda>a. puzzle (h ! a)) st @ [p]"
    using Cons.prems(2) by (auto simp: nth_append)
  have sub: "set ps \<subseteq> set (extensions P p0)" using Cons.prems(3) by simp
  from Cons.IH[OF wf2 refs2 sub] old show ?case
    unfolding step by simp
qed

lemma up_Nil [simp]: "up h a \<noteq> []"
  by (subst up.simps) (auto split: option.splits)

lemma hd_up [simp]: "hd (up h a) = a"
  by (subst up.simps) (auto split: option.splits)

lemma up_le: "b \<in> set (up h a) \<Longrightarrow> b \<le> a"
proof (induction a arbitrary: b rule: less_induct)
  case (less a)
  show ?case
  proof (cases "parent (h ! a)")
    case None
    with less.prems show ?thesis by (subst (asm) up.simps) simp
  next
    case (Some q)
    show ?thesis
    proof (cases "q < a")
      case True
      with Some less.prems have "b = a \<or> b \<in> set (up h q)"
        by (subst (asm) up.simps) auto
      with less.IH[OF True] True show ?thesis by force
    next
      case False
      with Some less.prems show ?thesis by (subst (asm) up.simps) simp
    qed
  qed
qed

lemma up_cong:
  "(\<And>b. b \<le> a \<Longrightarrow> parent (h' ! b) = parent (h ! b)) \<Longrightarrow> up h' a = up h a"
proof (induction a rule: less_induct)
  case (less a)
  have pa: "parent (h' ! a) = parent (h ! a)" using less.prems by simp
  show ?case
  proof (cases "parent (h ! a)")
    case None
    with pa show ?thesis by (simp add: up.simps)
  next
    case (Some q)
    show ?thesis
    proof (cases "q < a")
      case True
      have "up h' q = up h q" using less.IH[OF True] less.prems True by simp
      with Some pa True show ?thesis by (simp add: up.simps[of h a] up.simps[of h' a])
    next
      case False
      with Some pa show ?thesis by (simp add: up.simps)
    qed
  qed
qed

lemma up_append: "a < length h \<Longrightarrow> up (h @ ns) a = up h a"
  by (rule up_cong) (simp add: nth_append)

lemma up_Some:
  "parent (h ! a) = Some q \<Longrightarrow> q < a \<Longrightarrow> up h a = a # up h q"
  by (subst up.simps) simp

lemma up_None: "parent (h ! a) = None \<Longrightarrow> up h a = [a]"
  by (subst up.simps) simp

lemma depth_Some:
  "parent (h ! a) = Some q \<Longrightarrow> q < a \<Longrightarrow> depth h a = Suc (depth h q)"
  using up_Nil[of h q] by (cases "up h q") (simp_all add: depth_def up_Some)

lemma depth_None: "parent (h ! a) = None \<Longrightarrow> depth h a = 0"
  by (simp add: depth_def up_None)

lemma depth_append: "a < length h \<Longrightarrow> depth (h @ ns) a = depth h a"
  by (simp add: depth_def up_append)

subsection \<open>Path reconstruction\<close>

lemma up_tl_less: "b \<in> set (tl (up h a)) \<Longrightarrow> b < a"
proof (cases "parent (h ! a)")
  case None
  assume "b \<in> set (tl (up h a))"
  with None show ?thesis by (simp add: up_None)
next
  case (Some q)
  assume b: "b \<in> set (tl (up h a))"
  show ?thesis
  proof (cases "q < a")
    case True
    with Some b have "b \<in> set (up h q)" by (simp add: up_Some)
    then have "b \<le> q" by (rule up_le)
    with True show ?thesis by simp
  next
    case False
    with Some b show ?thesis by (simp add: up.simps)
  qed
qed

lemma last_up_root: "pdec h \<Longrightarrow> a < length h \<Longrightarrow> parent (h ! last (up h a)) = None"
proof (induction a rule: less_induct)
  case (less a)
  show ?case
  proof (cases "parent (h ! a)")
    case None
    then show ?thesis by (simp add: up_None)
  next
    case (Some q)
    with less.prems have qa: "q < a" by (simp add: pdec_def)
    with less.prems have "q < length h" by simp
    from less.IH[OF qa less.prems(1) this] Some qa show ?thesis by (simp add: up_Some)
  qed
qed

lemma dfs_path_maker_spec:
  assumes "pdec h" "a < length h"
  shows "\<exists>h'. dfs_path_maker h a = Some (h', last (up h a)) \<and> length h' = length h \<and>
           (\<forall>b. puzzle (h' ! b) = puzzle (h ! b) \<and> parent (h' ! b) = parent (h ! b)) \<and>
           (\<forall>b. b \<notin> set (tl (up h a)) \<longrightarrow> children (h' ! b) = children (h ! b)) \<and>
           (\<forall>b\<in>set (up h a). \<forall>q. parent (h ! b) = Some q \<longrightarrow> children (h' ! q) = children (h ! q) @ [b])"
  using assms
proof (induction a arbitrary: h rule: less_induct)
  case (less a)
  show ?case
  proof (cases "parent (h ! a)")
    case None
    then have "dfs_path_maker h a = Some (h, a)" by (subst dfs_path_maker.simps) simp
    with None show ?thesis by (simp add: up_None)
  next
    case (Some q)
    with less.prems have qa: "q < a" by (simp add: pdec_def)
    with less.prems have ql: "q < length h" by simp
    define h1 where "h1 = h[q := (h ! q)\<lparr>children := children (h ! q) @ [a]\<rparr>]"
    have par1: "parent (h1 ! b) = parent (h ! b)" for b
      using ql by (cases "b = q") (simp_all add: h1_def)
    have puz1: "puzzle (h1 ! b) = puzzle (h ! b)" for b
      using ql by (cases "b = q") (simp_all add: h1_def)
    have len1: "length h1 = length h" by (simp add: h1_def)
    have pdec1: "pdec h1" using less.prems by (simp add: pdec_def par1 len1)
    have up1: "up h1 b = up h b" for b by (rule up_cong) (simp add: par1)
    have step: "dfs_path_maker h a = dfs_path_maker h1 q"
      using Some by (subst dfs_path_maker.simps) (simp add: h1_def)
    have ql1: "q < length h1" using ql len1 by simp
    from less.IH[OF qa pdec1 ql1] obtain h' where
      r: "dfs_path_maker h1 q = Some (h', last (up h q))" and
      len: "length h' = length h1" and
      same: "\<And>b. puzzle (h' ! b) = puzzle (h1 ! b) \<and> parent (h' ! b) = parent (h1 ! b)" and
      frame: "\<And>b. b \<notin> set (tl (up h q)) \<Longrightarrow> children (h' ! b) = children (h1 ! b)" and
      link: "\<And>b r. b \<in> set (up h q) \<Longrightarrow> parent (h ! b) = Some r \<Longrightarrow>
               children (h' ! r) = children (h1 ! r) @ [b]"
      unfolding up1 par1 by blast
    have upa: "up h a = a # up h q" using Some qa by (rule up_Some)
    have q_notin: "q \<notin> set (tl (up h q))" using up_tl_less[of q h q] by auto
    have c1: "children (h1 ! b) = children (h ! b)" if "b \<noteq> q" for b
      using that by (simp add: h1_def)
    have A: "children (h' ! b) = children (h ! b)" if "b \<notin> set (tl (up h a))" for b
    proof -
      from that upa have nb: "b \<notin> set (up h q)" by simp
      then have "b \<noteq> q" using hd_up[of h q] up_Nil[of h q]
        by (metis hd_in_set)
      moreover from nb have "b \<notin> set (tl (up h q))" by (meson list.set_sel(2) up_Nil)
      ultimately show ?thesis using frame c1 by simp
    qed
    have B: "children (h' ! r) = children (h ! r) @ [b]"
      if "b \<in> set (up h a)" "parent (h ! b) = Some r" for b r
    proof (cases "b = a")
      case True
      with that Some have rq: "r = q" by simp
      have "children (h' ! q) = children (h1 ! q)" using frame[OF q_notin] .
      moreover have "children (h1 ! q) = children (h ! q) @ [a]"
        using ql by (simp add: h1_def)
      ultimately show ?thesis using True rq by simp
    next
      case False
      with that upa have bq: "b \<in> set (up h q)" by simp
      then have "b \<le> q" by (rule up_le)
      moreover have "r < b" using that(2) less.prems \<open>b \<le> q\<close> qa by (simp add: pdec_def)
      ultimately have "r \<noteq> q" by simp
      with link[OF bq that(2)] c1 show ?thesis by simp
    qed
    have last_eq: "last (up h a) = last (up h q)" using upa by simp
    show ?thesis
      unfolding step r last_eq
      using len len1 same par1 puz1 A B by simp
  qed
qed

lemma bfs_rewire_spec:
  assumes "pdec h" "a < length h"
  shows "\<exists>h'. bfs_rewire h a = Some (h', last (up h a)) \<and> length h' = length h \<and>
           (\<forall>b. puzzle (h' ! b) = puzzle (h ! b) \<and> parent (h' ! b) = parent (h ! b)) \<and>
           (\<forall>b. b \<notin> set (tl (up h a)) \<longrightarrow> children (h' ! b) = children (h ! b)) \<and>
           (\<forall>b\<in>set (up h a). \<forall>q. parent (h ! b) = Some q \<longrightarrow> children (h' ! q) = [b])"
  using assms
proof (induction a arbitrary: h rule: less_induct)
  case (less a)
  show ?case
  proof (cases "parent (h ! a)")
    case None
    then have "bfs_rewire h a = Some (h, a)" by (subst bfs_rewire.simps) simp
    with None show ?thesis by (simp add: up_None)
  next
    case (Some q)
    with less.prems have qa: "q < a" by (simp add: pdec_def)
    with less.prems have ql: "q < length h" by simp
    define h1 where "h1 = h[q := (h ! q)\<lparr>children := [a]\<rparr>]"
    have par1: "parent (h1 ! b) = parent (h ! b)" for b
      using ql by (cases "b = q") (simp_all add: h1_def)
    have puz1: "puzzle (h1 ! b) = puzzle (h ! b)" for b
      using ql by (cases "b = q") (simp_all add: h1_def)
    have len1: "length h1 = length h" by (simp add: h1_def)
    have pdec1: "pdec h1" using less.prems by (simp add: pdec_def par1 len1)
    have up1: "up h1 b = up h b" for b by (rule up_cong) (simp add: par1)
    have step: "bfs_rewire h a = bfs_rewire h1 q"
      using Some by (subst bfs_rewire.simps) (simp add: h1_def)
    have ql1: "q < length h1" using ql len1 by simp
    from less.IH[OF qa pdec1 ql1] obtain h' where
      r: "bfs_rewire h1 q = Some (h', last (up h q))" and
      len: "length h' = length h1" and
      same: "\<And>b. puzzle (h' ! b) = puzzle (h1 ! b) \<and> parent (h' ! b) = parent (h1 ! b)" and
      frame: "\<And>b. b \<notin> set (tl (up h q)) \<Longrightarrow> children (h' ! b) = children (h1 ! b)" and
      link: "\<And>b r. b \<in> set (up h q) \<Longrightarrow> parent (h ! b) = Some r \<Longrightarrow>
               children (h' ! r) = [b]"
      unfolding up1 par1 by blast
    have upa: "up h a = a # up h q" using Some qa by (rule up_Some)
    have q_notin: "q \<notin> set (tl (up h q))" using up_tl_less[of q h q] by auto
    have c1: "children (h1 ! b) = children (h ! b)" if "b \<noteq> q" for b
      using that by (simp add: h1_def)
    have A: "children (h' ! b) = children (h ! b)" if "b \<notin> set (tl (up h a))" for b
    proof -
      from that upa have nb: "b \<notin> set (up h q)" by simp
      then have "b \<noteq> q" using hd_up[of h q] up_Nil[of h q]
        by (metis hd_in_set)
      moreover from nb have "b \<notin> set (tl (up h q))" by (meson list.set_sel(2) up_Nil)
      ultimately show ?thesis using frame c1 by simp
    qed
    have B: "children (h' ! r) = [b]"
      if "b \<in> set (up h a)" "parent (h ! b) = Some r" for b r
    proof (cases "b = a")
      case True
      with that Some have rq: "r = q" by simp
      have "children (h' ! q) = children (h1 ! q)" using frame[OF q_notin] .
      moreover have "children (h1 ! q) = [a]"
        using ql by (simp add: h1_def)
      ultimately show ?thesis using True rq by simp
    next
      case False
      with that upa have bq: "b \<in> set (up h q)" by simp
      then have "b \<le> q" by (rule up_le)
      moreover have "r < b" using that(2) less.prems \<open>b \<le> q\<close> qa by (simp add: pdec_def)
      ultimately have "r \<noteq> q" by simp
      with link[OF bq that(2)] c1 show ?thesis by simp
    qed
    have last_eq: "last (up h a) = last (up h q)" using upa by simp
    show ?thesis
      unfolding step r last_eq
      using len len1 same par1 puz1 A B by simp
  qed
qed

lemma solution_chain_up:
  assumes wf: "wf_store P p0 h"
    and same: "\<And>b. puzzle (h' ! b) = puzzle (h ! b) \<and> parent (h' ! b) = parent (h ! b)"
    and link: "\<And>b q. b \<in> set (up h a) \<Longrightarrow> parent (h ! b) = Some q \<Longrightarrow> children (h' ! q) = [b]"
    and al: "a < length h"
    and below: "solution_chain P h' (a # ys)"
  shows "solution_chain P h' (rev (up h a) @ ys)"
  using link al below
proof (induction a arbitrary: ys rule: less_induct)
  case (less a)
  show ?case
  proof (cases "parent (h ! a)")
    case None
    with less.prems show ?thesis by (simp add: up_None)
  next
    case (Some q)
    from wf less.prems(2) Some have qa: "q < a"
      and ext: "puzzle (h ! a) \<in> set (extensions P (puzzle (h ! q)))"
      by (auto simp: wf_store_def)
    have upa: "up h a = a # up h q" using Some qa by (rule up_Some)
    have cq: "children (h' ! q) = [a]"
      using less.prems(1)[of a q] Some upa by simp
    have "solution_chain P h' (q # a # ys)"
      using cq Some ext less.prems(3) same by simp
    moreover have "q < length h" using qa less.prems(2) by simp
    moreover have "\<And>b r. b \<in> set (up h q) \<Longrightarrow> parent (h ! b) = Some r \<Longrightarrow> children (h' ! r) = [b]"
      using less.prems(1) upa by simp
    ultimately have "solution_chain P h' (rev (up h q) @ a # ys)"
      using less.IH[OF qa] by blast
    then show ?thesis using upa by simp
  qed
qed

lemma wf_store_pdec: "wf_store P p0 h \<Longrightarrow> pdec h"
  by (auto simp: wf_store_def pdec_def)

subsection \<open>The depth-first loop keeps its invariant\<close>

lemma dfs_expand_simps:
  "store (dfs_expand P s c) =
     store s @ map (\<lambda>p. \<lparr>puzzle = p, children = [], parent = Some c\<rparr>) (extensions P (puzzle (store s ! c)))"
  "work (dfs_expand P s c) =
     rev [length (store s)..<length (store s) + length (extensions P (puzzle (store s ! c)))] @ work s"
  "visited (dfs_expand P s c) = visited s"
  "expanded (dfs_expand P s c) = expanded s @ [puzzle (store s ! c)]"
  using dfs_push_store[of c "extensions P (puzzle (store s ! c))" "store s" "work s"]
        dfs_push_work[of c "extensions P (puzzle (store s ! c))" "store s" "work s"]
  by (simp_all add: dfs_expand_def split_beta)

lemma dfs_mark_simps [simp]:
  "store (dfs_mark P s c st) = store s"
  "work (dfs_mark P s c st) = st"
  "visited (dfs_mark P s c st) = insert (str P (puzzle (store s ! c))) (visited s)"
  "expanded (dfs_mark P s c st) = expanded s"
  by (simp_all add: dfs_mark_def)

lemma dfs_inv_skip:
  "dfs_inv P p0 s \<Longrightarrow> work s = c # st \<Longrightarrow> dfs_inv P p0 (s\<lparr>work := st\<rparr>)"
  by (simp add: dfs_inv_def)

lemma dfs_inv_expand:
  assumes "dfs_inv P p0 s" "work s = c # st" "str P (puzzle (store s ! c)) \<notin> visited s"
  shows "dfs_inv P p0 (dfs_expand P (dfs_mark P s c st) c)"
proof -
  have cl: "c < length (store s)" using assms(1,2) by (simp add: dfs_inv_def)
  have wf: "wf_store P p0 (store s)" using assms(1) by (simp add: dfs_inv_def)
  have "wf_store P p0 (store (dfs_expand P (dfs_mark P s c st) c))"
    unfolding dfs_expand_simps dfs_mark_simps
    by (rule wf_store_append[OF wf]) (use cl in auto)
  moreover have "\<forall>a\<in>set (work (dfs_expand P (dfs_mark P s c st) c)).
                   a < length (store (dfs_expand P (dfs_mark P s c st) c))"
    unfolding dfs_expand_simps dfs_mark_simps
    using assms(1,2) by (auto simp: dfs_inv_def)
  moreover have "distinct (map (str P) (expanded (dfs_expand P (dfs_mark P s c st) c)))"
    unfolding dfs_expand_simps dfs_mark_simps
    using assms(1,3) by (auto simp: dfs_inv_def)
  moreover have "str P ` set (expanded (dfs_expand P (dfs_mark P s c st) c))
                   \<subseteq> visited (dfs_expand P (dfs_mark P s c st) c)"
    unfolding dfs_expand_simps dfs_mark_simps
    using assms(1) by (auto simp: dfs_inv_def)
  ultimately show ?thesis unfolding dfs_inv_def by blast
qed

lemma dfs_path_maker_chain:
  assumes wf: "wf_store P p0 h" and cl: "c < length h" and sol: "is_solved P (puzzle (h ! c))"
  shows "\<exists>h'. dfs_path_maker h c = Some (h', last (up h c)) \<and>
           puzzle (h' ! last (up h c)) = p0 \<and> parent (h' ! last (up h c)) = None \<and>
           solution_chain P h' (rev (up h c))"
proof -
  have pd: "pdec h" using wf by (rule wf_store_pdec)
  from dfs_path_maker_spec[OF pd cl] obtain h' where
    r: "dfs_path_maker h c = Some (h', last (up h c))" and
    same: "\<And>b. puzzle (h' ! b) = puzzle (h ! b) \<and> parent (h' ! b) = parent (h ! b)" and
    frame: "\<And>b. b \<notin> set (tl (up h c)) \<Longrightarrow> children (h' ! b) = children (h ! b)" and
    link: "\<And>b q. b \<in> set (up h c) \<Longrightarrow> parent (h ! b) = Some q \<Longrightarrow>
             children (h' ! q) = children (h ! q) @ [b]"
    by blast
  have rl: "last (up h c) < length h"
    using up_le[of "last (up h c)" h c] cl by (meson last_in_set le_less_trans up_Nil)
  have root: "parent (h ! last (up h c)) = None" using pd cl by (rule last_up_root)
  with wf rl have p0: "puzzle (h ! last (up h c)) = p0" by (auto simp: wf_store_def)
  have "c \<notin> set (tl (up h c))" using up_tl_less[of c h c] by auto
  then have "children (h' ! c) = []" using frame wf cl by (simp add: wf_store_def)
  then have leaf: "solution_chain P h' (c # [])" using sol same by simp
  have link': "children (h' ! q) = [b]" if "b \<in> set (up h c)" "parent (h ! b) = Some q" for b q
  proof -
    have "b < length h" using up_le[OF that(1)] cl by simp
    with wf that(2) have "q < length h" by (auto simp: wf_store_def)
    with wf have "children (h ! q) = []" by (simp add: wf_store_def)
    with link[OF that] show ?thesis by simp
  qed
  have "solution_chain P h' (rev (up h c) @ [])"
    by (rule solution_chain_up[OF wf same link' cl leaf])
  with r p0 root same show ?thesis by auto
qed

lemma bfs_rewire_chain:
  assumes wf: "wf_store P p0 h" and cl: "c < length h" and sol: "is_solved P (puzzle (h ! c))"
  shows "\<exists>h'. bfs_rewire h c = Some (h', last (up h c)) \<and>
           puzzle (h' ! last (up h c)) = p0 \<and> parent (h' ! last (up h c)) = None \<and>
           solution_chain P h' (rev (up h c))"
proof -
  have pd: "pdec h" using wf by (rule wf_store_pdec)
  from bfs_rewire_spec[OF pd cl] obtain h' where
    r: "bfs_rewire h c = Some (h', last (up h c))" and
    same: "\<And>b. puzzle (h' ! b) = puzzle (h ! b) \<and> parent (h' ! b) = parent (h ! b)" and
    frame: "\<And>b. b \<notin> set (tl (up h c)) \<Longrightarrow> children (h' ! b) = children (h ! b)" and
    link: "\<And>b q. b \<in> set (up h c) \<Longrightarrow> parent (h ! b) = Some q \<Longrightarrow>
             children (h' ! q) = [b]"
    by blast
  have rl: "last (up h c) < length h"
    using up_le[of "last (up h c)" h c] cl by (meson last_in_set le_less_trans up_Nil)
  have root: "parent (h ! last (up h c)) = None" using pd cl by (rule last_up_root)
  with wf rl have p0: "puzzle (h ! last (up h c)) = p0" by (auto simp: wf_store_def)
  have "c \<notin> set (tl (up h c))" using up_tl_less[of c h c] by auto
  then have "children (h' ! c) = []" using frame wf cl by (simp add: wf_store_def)
  then have leaf: "solution_chain P h' (c # [])" using sol same by simp
  have link': "children (h' ! q) = [b]" if "b \<in> set (up h c)" "parent (h ! b) = Some q" for b q
  proof -
    have "b < length h" using up_le[OF that(1)] cl by simp
    with wf that(2) have "q < length h" by (auto simp: wf_store_def)
    with wf have "children (h ! q) = []" by (simp add: wf_store_def)
    with link[OF that] show ?thesis by simp
  qed
  have "solution_chain P h' (rev (up h c) @ [])"
    by (rule solution_chain_up[OF wf same link' cl leaf])
  with r p0 root same show ?thesis by auto
qed

lemma hd_rev_up: "hd (rev (up h c)) = last (up h c)"
  by (simp add: hd_rev)

lemma dfs_loop_partial:
  assumes "dfs_loop P s = Some res" and "dfs_inv P p0 s"
  shows "(\<forall>r. snd res = Some r \<longrightarrow>
            (\<exists>path. hd path = r \<and> puzzle (store (fst res) ! r) = p0 \<and>
                    parent (store (fst res) ! r) = None \<and> solution_chain P (store (fst res)) path)) \<and>
         distinct (map (str P) (expanded (fst res)))"
  using assms
proof (induction rule: dfs_loop.raw_induct[rotated 1, consumes 1, case_names step])
  case (step loop P s res)
  note body = step.hyps
  show ?case
  proof (cases "work s")
    case Nil
    with body step.prems show ?thesis by (auto simp: dfs_inv_def)
  next
    case (Cons c st)
    show ?thesis
    proof (cases "str P (puzzle (store s ! c)) \<in> visited s")
      case True
      with Cons body have "loop P (s\<lparr>work := st\<rparr>) = Some res" by simp
      then show ?thesis
        by (rule step.IH) (rule dfs_inv_skip[OF step.prems Cons])
    next
      case False
      show ?thesis
      proof (cases "is_solved P (puzzle (store s ! c))")
        case sol: True
        have wf: "wf_store P p0 (store s)" and cl: "c < length (store s)"
          using step.prems Cons by (simp_all add: dfs_inv_def)
        from dfs_path_maker_chain[OF wf cl sol] obtain h' where
          r: "dfs_path_maker (store s) c = Some (h', last (up (store s) c))" and
          g: "puzzle (h' ! last (up (store s) c)) = p0" "parent (h' ! last (up (store s) c)) = None"
             "solution_chain P h' (rev (up (store s) c))"
          by blast
        from Cons False sol r body
        have res: "res = ((dfs_mark P s c st)\<lparr>store := h'\<rparr>, Some (last (up (store s) c)))"
          by simp
        have "distinct (map (str P) (expanded s))" using step.prems by (simp add: dfs_inv_def)
        with g hd_rev_up[of "store s" c] show ?thesis unfolding res by auto
      next
        case nsol: False
        with Cons False body
        have "loop P (dfs_expand P (dfs_mark P s c st) c) = Some res" by simp
        then show ?thesis
          by (rule step.IH) (rule dfs_inv_expand[OF step.prems Cons False])
      qed
    qed
  qed
qed

subsection \<open>Solved initial states and states without extensions\<close>

lemma bfs_expand_simps:
  "store (bfs_expand P s c q) =
     store s @ map (\<lambda>e. \<lparr>puzzle = e, children = [], parent = Some c\<rparr>) (unseen P s c)"
  "work (bfs_expand P s c q) = q @ [length (store s)..<length (store s) + length (unseen P s c)]"
  "visited (bfs_expand P s c q) = insert (str P (puzzle (store s ! c))) (visited s)"
  "expanded (bfs_expand P s c q) = expanded s @ [puzzle (store s ! c)]"
  using bfs_enqueue_store[of P "insert (str P (puzzle (store s ! c))) (visited s)" c
          "extensions P (puzzle (store s ! c))" "store s" q]
        bfs_enqueue_work[of P "insert (str P (puzzle (store s ! c))) (visited s)" c
          "extensions P (puzzle (store s ! c))" "store s" q]
  by (simp_all add: bfs_expand_def unseen_def split_beta Let_def)

lemma bfs_expand_old:
  "a < length (store s) \<Longrightarrow> store (bfs_expand P s c q) ! a = store s ! a"
  by (simp add: bfs_expand_simps nth_append)

lemma dfs_solved_initial:
  "is_solved P p \<Longrightarrow>
   depth_first_solve P p =
     Some (\<lparr>store = [\<lparr>puzzle = p, children = [], parent = None\<rparr>], work = [], visited = {},
            expanded = []\<rparr>, Some 0)"
  by (simp add: depth_first_solve_def new_PuzzleNode_def)

lemma bfs_solved_initial:
  assumes "is_solved P p"
  shows "breadth_first_solve P p =
     Some (\<lparr>store = \<lparr>puzzle = p, children = [], parent = None\<rparr> #
                     map (\<lambda>e. \<lparr>puzzle = e, children = [], parent = Some 0\<rparr>)
                       (filter (\<lambda>e. str P e \<noteq> str P p) (extensions P p)),
            work = [Suc 0..<Suc (length (filter (\<lambda>e. str P e \<noteq> str P p) (extensions P p)))],
            visited = {str P p}, expanded = [p]\<rparr>, Some 0)"
proof -
  let ?root = "\<lparr>puzzle = p, children = [], parent = None\<rparr>"
  let ?s = "\<lparr>store = [?root], work = [0], visited = {}, expanded = []\<rparr>"
  let ?s' = "bfs_expand P ?s 0 []"
  have un: "unseen P ?s 0 = filter (\<lambda>e. str P e \<noteq> str P p) (extensions P p)"
    by (simp add: unseen_def)
  have st: "store ?s' = ?root # map (\<lambda>e. \<lparr>puzzle = e, children = [], parent = Some 0\<rparr>)
                       (filter (\<lambda>e. str P e \<noteq> str P p) (extensions P p))"
    by (simp add: bfs_expand_simps un)
  have rw: "bfs_rewire (store ?s') 0 = Some (store ?s', 0)"
    by (subst bfs_rewire.simps) (simp add: st)
  have "bfs_loop P ?s = Some (?s'\<lparr>store := store ?s'\<rparr>, Some [0])"
    by (subst bfs_loop.simps) (simp add: rw assms, simp add: st assms)
  moreover have "?s'\<lparr>store := store ?s'\<rparr> = \<lparr>store = store ?s', work = work ?s', visited = visited ?s', expanded = expanded ?s'\<rparr>"
    by simp
  ultimately show ?thesis
    unfolding breadth_first_solve_def breadth_first_search_def
    by (simp add: new_PuzzleNode_def bfs_expand_simps un)
qed

lemma dfs_no_extensions:
  "\<not> is_solved P p \<Longrightarrow> extensions P p = [] \<Longrightarrow>
   depth_first_solve P p =
     Some (\<lparr>store = [], work = [], visited = {str P p}, expanded = [p]\<rparr>, None)"
  by (simp add: depth_first_solve_def dfs_loop.simps)

lemma bfs_no_extensions:
  assumes "\<not> is_solved P p" "extensions P p = []"
  shows "breadth_first_solve P p =
     Some (\<lparr>store = [\<lparr>puzzle = p, children = [], parent = None\<rparr>], work = [],
            visited = {str P p}, expanded = [p]\<rparr>, None)"
proof -
  let ?root = "\<lparr>puzzle = p, children = [], parent = None\<rparr>"
  let ?s = "\<lparr>store = [?root], work = [0], visited = {}, expanded = []\<rparr>"
  let ?s' = "bfs_expand P ?s 0 []"
  have un: "unseen P ?s 0 = []" using assms by (simp add: unseen_def)
  have s': "?s' = \<lparr>store = [?root], work = [], visited = {str P p}, expanded = [p]\<rparr>"
    by (simp add: bfs_expand_def assms)
  have "bfs_loop P ?s = bfs_loop P ?s'"
    by (subst bfs_loop.simps) (simp add: bfs_expand_simps un assms)
  also have "\<dots> = Some (?s', None)"
    unfolding s' by (subst bfs_loop.simps) simp
  finally show ?thesis
    unfolding breadth_first_solve_def breadth_first_search_def
    by (simp add: new_PuzzleNode_def s')
qed

subsection \<open>The returned path of either engine\<close>

lemma depth_first_solve_unsolved:
  "\<not> is_solved P p \<Longrightarrow>
   depth_first_solve P p =
     dfs_loop P \<lparr>store = fst (dfs_seed p (extensions P p) ([], [])),
                 work = snd (dfs_seed p (extensions P p) ([], [])),
                 visited = {str P p}, expanded = [p]\<rparr>"
  by (simp add: depth_first_solve_def split_beta)

lemma dfs_inv_init:
  "dfs_inv P p \<lparr>store = fst (dfs_seed p (extensions P p) ([], [])),
                work = snd (dfs_seed p (extensions P p) ([], [])),
                visited = {str P p}, expanded = [p]\<rparr>"
  using dfs_seed_inv[of P p "[]" "[]" "extensions P p"]
  by (simp add: dfs_inv_def wf_store_Nil)

lemma depth_first_solve_chain:
  assumes "depth_first_solve P p = Some (s, Some r)"
  shows "\<exists>path. hd path = r \<and> puzzle (store s ! r) = p \<and> parent (store s ! r) = None \<and>
                solution_chain P (store s) path"
proof (cases "is_solved P p")
  case True
  from assms dfs_solved_initial[OF True]
  have "r = 0" "store s = [\<lparr>puzzle = p, children = [], parent = None\<rparr>]" by auto
  with True have "hd [0] = r \<and> puzzle (store s ! r) = p \<and> parent (store s ! r) = None \<and>
                  solution_chain P (store s) [0]" by simp
  then show ?thesis by blast
next
  case False
  from assms depth_first_solve_unsolved[OF False] dfs_loop_partial[OF _ dfs_inv_init, of P p "(s, Some r)"]
  show ?thesis by simp
qed

lemma bfs_inv_expand:
  assumes "bfs_inv P p0 s" "work s = c # q"
  shows "bfs_inv P p0 (bfs_expand P s c q)"
proof -
  have cl: "c < length (store s)" using assms by (simp add: bfs_inv_def)
  have wf: "wf_store P p0 (store s)" using assms(1) by (simp add: bfs_inv_def)
  have "wf_store P p0 (store (bfs_expand P s c q))"
    unfolding bfs_expand_simps
    by (rule wf_store_append[OF wf]) (use cl in \<open>auto simp: unseen_def\<close>)
  moreover have "\<forall>a\<in>set (work (bfs_expand P s c q)). a < length (store (bfs_expand P s c q))"
    unfolding bfs_expand_simps using assms by (auto simp: bfs_inv_def)
  ultimately show ?thesis by (simp add: bfs_inv_def)
qed

lemma bfs_loop_partial:
  assumes "bfs_loop P s = Some res" and "bfs_inv P p0 s"
  shows "\<forall>path. snd res = Some path \<longrightarrow>
           (\<exists>r chain. path = [r] \<and> hd chain = r \<and> puzzle (store (fst res) ! r) = p0 \<and>
                    parent (store (fst res) ! r) = None \<and> solution_chain P (store (fst res)) chain)"
  using assms
proof (induction rule: bfs_loop.raw_induct[rotated 1, consumes 1, case_names step])
  case (step loop P s res)
  note body = step.hyps
  show ?case
  proof (cases "work s")
    case Nil
    with body show ?thesis by auto
  next
    case (Cons c q)
    let ?s' = "bfs_expand P s c q"
    have inv': "bfs_inv P p0 ?s'" by (rule bfs_inv_expand[OF step.prems Cons])
    show ?thesis
    proof (cases "is_solved P (puzzle (store ?s' ! c))")
      case sol: True
      have wf: "wf_store P p0 (store ?s')" using inv' by (simp add: bfs_inv_def)
      have "c < length (store s)" using step.prems Cons by (simp add: bfs_inv_def)
      then have cl: "c < length (store ?s')" by (simp add: bfs_expand_simps)
      from bfs_rewire_chain[OF wf cl sol] obtain h' where
        r: "bfs_rewire (store ?s') c = Some (h', last (up (store ?s') c))" and
        g: "puzzle (h' ! last (up (store ?s') c)) = p0" "parent (h' ! last (up (store ?s') c)) = None"
           "solution_chain P h' (rev (up (store ?s') c))"
        by blast
      from Cons sol r body
      have res: "res = (?s'\<lparr>store := h'\<rparr>, Some [last (up (store ?s') c)])"
        by simp
      from g hd_rev_up[of "store ?s'" c] show ?thesis unfolding res by auto
    next
      case False
      with Cons body have "loop P ?s' = Some res" by simp
      then show ?thesis by (rule step.IH) (rule inv')
    qed
  qed
qed

lemma breadth_first_solve_chain:
  assumes "breadth_first_solve P p = Some (s, Some r)"
  shows "\<exists>path. hd path = r \<and> puzzle (store s ! r) = p \<and> parent (store s ! r) = None \<and>
                solution_chain P (store s) path"
proof -
  let ?s0 = "\<lparr>store = [\<lparr>puzzle = p, children = [], parent = None\<rparr>], work = [0], visited = {},
              expanded = []\<rparr>"
  have inv: "bfs_inv P p ?s0" by (simp add: bfs_inv_def wf_store_def)
  from assms obtain path where
    l: "bfs_loop P ?s0 = Some (s, path)" and
    p: "(case path of None \<Rightarrow> None | Some [] \<Rightarrow> None | Some (r # _) \<Rightarrow> Some r) = Some r"
    by (auto simp: breadth_first_solve_def breadth_first_search_def new_PuzzleNode_def
             split: option.splits)
  from p obtain rest where path: "path = Some (r # rest)"
    by (auto split: option.splits list.splits)
  from bfs_loop_partial[OF l inv] path show ?thesis by auto
qed

subsection \<open>Termination of the depth-first search, and word ladders\<close>

lemma wf_store_reachable:
  assumes "wf_store P p0 h"
  shows "a < length h \<Longrightarrow> puzzle (h ! a) \<in> reachable P p0"
proof (induction a rule: less_induct)
  case (less a)
  show ?case
  proof (cases "parent (h ! a)")
    case None
    with assms less.prems show ?thesis by (auto simp: wf_store_def reachable_def)
  next
    case (Some q)
    with assms less.prems have qa: "q < a"
      and ext: "puzzle (h ! a) \<in> set (extensions P (puzzle (h ! q)))"
      by (auto simp: wf_store_def)
    have "puzzle (h ! q) \<in> reachable P p0" using less.IH[OF qa] qa less.prems by simp
    with ext show ?thesis
      by (auto simp: reachable_def succs_def intro: rtrancl_into_rtrancl)
  qed
qed

lemma dfs_loop_terminates:
  assumes fin: "finite (reachable P p0)"
  shows "dfs_inv P p0 s \<Longrightarrow> \<exists>res. dfs_loop P s = Some res"
proof -
  define R where "R = inv_image (less_than <*lex*> less_than)
     (\<lambda>s :: 'a search. (card (str P ` reachable P p0 - visited s), length (work s)))"
  have wfR: "wf R" unfolding R_def by (intro wf_inv_image wf_lex_prod wf_less_than)
  show "dfs_inv P p0 s \<Longrightarrow> \<exists>res. dfs_loop P s = Some res"
  proof (induction s rule: wf_induct_rule[OF wfR])
    case (1 s)
    note inv = "1.prems"
    show ?case
    proof (cases "work s")
      case Nil
      then show ?thesis by (subst dfs_loop.simps) simp
    next
      case (Cons c st)
      have wf: "wf_store P p0 (store s)" and cl: "c < length (store s)"
        using inv Cons by (simp_all add: dfs_inv_def)
      show ?thesis
      proof (cases "str P (puzzle (store s ! c)) \<in> visited s")
        case True
        have "(s\<lparr>work := st\<rparr>, s) \<in> R" using Cons by (simp add: R_def)
        from "1.IH"[OF this dfs_inv_skip[OF inv Cons]] obtain res
          where "dfs_loop P (s\<lparr>work := st\<rparr>) = Some res" by blast
        with Cons True show ?thesis by (subst dfs_loop.simps) simp
      next
        case False
        show ?thesis
        proof (cases "is_solved P (puzzle (store s ! c))")
          case sol: True
          from dfs_path_maker_chain[OF wf cl sol] obtain h' where
            "dfs_path_maker (store s) c = Some (h', last (up (store s) c))" by blast
          with Cons False sol show ?thesis by (subst dfs_loop.simps) simp
        next
          case nsol: False
          let ?s' = "dfs_expand P (dfs_mark P s c st) c"
          have "str P (puzzle (store s ! c)) \<in> str P ` reachable P p0"
            using wf_store_reachable[OF wf cl] by simp
          with False have "str P ` reachable P p0 - insert (str P (puzzle (store s ! c))) (visited s)
                           \<subset> str P ` reachable P p0 - visited s" by auto
          moreover have "finite (str P ` reachable P p0 - visited s)" using fin by simp
          ultimately have "card (str P ` reachable P p0 - insert (str P (puzzle (store s ! c))) (visited s))
                           < card (str P ` reachable P p0 - visited s)"
            by (rule psubset_card_mono[rotated])
          then have "(?s', s) \<in> R" by (simp add: R_def dfs_expand_simps)
          from "1.IH"[OF this dfs_inv_expand[OF inv Cons False]] obtain res
            where "dfs_loop P ?s' = Some res" by blast
          with Cons False nsol show ?thesis by (subst dfs_loop.simps) simp
        qed
      qed
    qed
  qed
qed

lemma depth_first_solve_terminates:
  assumes "finite (reachable P p)"
  shows "\<exists>res. depth_first_solve P p = Some res"
proof (cases "is_solved P p")
  case True
  then show ?thesis by (simp add: dfs_solved_initial)
next
  case False
  show ?thesis
    unfolding depth_first_solve_unsolved[OF False]
    by (rule dfs_loop_terminates[OF assms dfs_inv_init])
qed

lemma WordLadder_succs:
  assumes "(w, w') \<in> succs WordLadder"
  shows "to_word w' = to_word w \<and> word_set w' = word_set w \<and> from_word w' \<in> word_set w"
  using assms
  by (auto simp: succs_def WordLadder_def WordLadderPuzzle_extensions_def Let_def split: if_splits)

lemma WordLadder_reachable:
  assumes "w' \<in> reachable WordLadder w"
  shows "to_word w' = to_word w \<and> word_set w' = word_set w \<and>
         from_word w' \<in> insert (from_word w) (word_set w)"
proof -
  from assms have "(w, w') \<in> (succs WordLadder)\<^sup>*" by (simp add: reachable_def)
  then show ?thesis
  proof (induction rule: rtrancl_induct)
    case base
    show ?case by simp
  next
    case (step y z)
    from WordLadder_succs[OF step.hyps(2)] step.IH show ?case by simp
  qed
qed

lemma WordLadder_reachable_finite:
  assumes "finite (word_set w)"
  shows "finite (reachable WordLadder w)"
proof -
  have "reachable WordLadder w \<subseteq>
          (\<lambda>f. \<lparr>from_word = f, to_word = to_word w, word_set = word_set w\<rparr>) `
             insert (from_word w) (word_set w)"
  proof
    fix w' assume "w' \<in> reachable WordLadder w"
    from WordLadder_reachable[OF this]
    have "w' = \<lparr>from_word = from_word w', to_word = to_word w, word_set = word_set w\<rparr>"
      and "from_word w' \<in> insert (from_word w) (word_set w)" by simp_all
    then show "w' \<in> (\<lambda>f. \<lparr>from_word = f, to_word = to_word w, word_set = word_set w\<rparr>) `
             insert (from_word w) (word_set w)" by (metis (no_types, lifting) image_iff)
  qed
  moreover have "finite ((\<lambda>f. \<lparr>from_word = f, to_word = to_word w, word_set = word_set w\<rparr>) `
             insert (from_word w) (word_set w))" using assms by simp
  ultimately show ?thesis by (rule finite_subset)
qed

lemma WordLadder_str_inj:
  "inj_on (str WordLadder) (reachable WordLadder w)"
proof (rule inj_onI)
  fix x y assume x: "x \<in> reachable WordLadder w" and y: "y \<in> reachable WordLadder w"
    and e: "str WordLadder x = str WordLadder y"
  from WordLadder_reachable[OF x] WordLadder_reachable[OF y]
  have same: "to_word x = to_word y" "word_set x = word_set y" by simp_all
  from e same have "from_word x = from_word y"
    by (simp add: WordLadder_def WordLadderPuzzle_str_def)
  with same show "x = y" by simp
qed

subsection \<open>Uniqueness of the chain and the order of the work list\<close>

lemma solution_chain_unique:
  "solution_chain P h xs \<Longrightarrow> solution_chain P h ys \<Longrightarrow> hd xs = hd ys \<Longrightarrow> xs = ys"
proof (induction P h xs arbitrary: ys rule: solution_chain.induct)
  case (1 P h)
  then show ?case by simp
next
  case (2 P h a)
  show ?case
  proof (cases ys)
    case Nil
    with "2.prems" show ?thesis by simp
  next
    case (Cons y ys')
    with "2.prems" show ?thesis by (cases ys') auto
  qed
next
  case (3 P h a b as)
  show ?case
  proof (cases ys)
    case Nil
    with "3.prems" show ?thesis by simp
  next
    case (Cons y ys')
    show ?thesis
    proof (cases ys')
      case Nil
      with Cons "3.prems" show ?thesis by simp
    next
      case (Cons z zs)
      with \<open>ys = y # ys'\<close> "3.prems" have "y = a" "z = b" "solution_chain P h (z # zs)" by auto
      with "3.IH"[of "z # zs"] "3.prems" Cons \<open>ys = y # ys'\<close> show ?thesis by simp
    qed
  qed
qed

lemma map_nth_append_upt:
  "map (\<lambda>a. f ((h @ xs) ! a)) [length h..<length h + length xs] = map f xs"
proof -
  have "[length h..<length h + length xs] = map (\<lambda>i. i + length h) [0..<length xs]"
    by (simp add: map_add_upt add.commute)
  then have "map (\<lambda>a. f ((h @ xs) ! a)) [length h..<length h + length xs] =
             map (\<lambda>i. f (xs ! i)) [0..<length xs]"
    by (simp add: o_def nth_append)
  also have "\<dots> = map f (map (\<lambda>i. xs ! i) [0..<length xs])" by (simp add: o_def)
  also have "\<dots> = map f xs" by (simp add: map_nth)
  finally show ?thesis .
qed

lemma dfs_seed_puzzles:
  "map (\<lambda>a. puzzle (fst (dfs_seed p ps ([], [])) ! a)) (snd (dfs_seed p ps ([], []))) = ps"
proof -
  define P :: "'a Puzzle" where "P = \<lparr>is_solved = (\<lambda>_. False), extensions = (\<lambda>_. ps), str = (\<lambda>_. []), eq = (=)\<rparr>"
  have "set ps \<subseteq> set (extensions P p)" by (simp add: P_def)
  from dfs_seed_inv[OF wf_store_Nil _ this, of "[]"] show ?thesis by simp
qed

lemma dfs_expand_puzzles:
  assumes "\<forall>a\<in>set st. a < length (store s)"
  shows "map (\<lambda>a. puzzle (store (dfs_expand P (dfs_mark P s c st) c) ! a))
           (work (dfs_expand P (dfs_mark P s c st) c)) =
         rev (extensions P (puzzle (store s ! c))) @ map (\<lambda>a. puzzle (store s ! a)) st"
proof -
  let ?ps = "extensions P (puzzle (store s ! c))"
  let ?new = "map (\<lambda>p. \<lparr>puzzle = p, children = [], parent = Some c\<rparr>) ?ps"
  have "map (\<lambda>a. puzzle ((store s @ ?new) ! a)) [length (store s)..<length (store s) + length ?new]
          = map puzzle ?new"
    by (rule map_nth_append_upt)
  then have new: "map (\<lambda>a. puzzle ((store s @ ?new) ! a)) [length (store s)..<length (store s) + length ?ps]
          = ?ps" by (simp add: o_def)
  have old: "map (\<lambda>a. puzzle ((store s @ ?new) ! a)) st = map (\<lambda>a. puzzle (store s ! a)) st"
    using assms by (simp add: nth_append)
  show ?thesis
    unfolding dfs_expand_simps dfs_mark_simps
    by (simp add: rev_map[symmetric] new old)
qed

subsection \<open>Expanded states of the depth-first search\<close>

lemma dfs_expanded_distinct:
  assumes "depth_first_solve P p = Some (s, r)"
  shows "distinct (map (str P) (expanded s))"
proof (cases "is_solved P p")
  case True
  with assms dfs_solved_initial[OF True] show ?thesis by auto
next
  case False
  from assms depth_first_solve_unsolved[OF False] dfs_loop_partial[OF _ dfs_inv_init, of P p "(s, r)"]
  show ?thesis by simp
qed

subsection \<open>Equality of nodes\<close>

lemma py_in_cong:
  "(\<And>e. e \<in> set ys \<Longrightarrow> f e x = g e x) \<Longrightarrow> py_in f x ys = py_in g x ys"
  by (induction ys) (auto split: option.splits bool.splits)

lemma py_all_in_cong:
  "(\<And>x e. x \<in> set xs \<Longrightarrow> e \<in> set ys \<Longrightarrow> f e x = g e x) \<Longrightarrow> py_all_in f xs ys = py_all_in g xs ys"
proof (induction xs)
  case Nil
  show ?case by simp
next
  case (Cons x xs)
  have "py_in f x ys = py_in g x ys" by (rule py_in_cong) (simp add: Cons.prems)
  moreover have "py_all_in f xs ys = py_all_in g xs ys" by (rule Cons.IH) (simp add: Cons.prems)
  ultimately show ?case by (simp only: py_all_in.simps)
qed

lemma py_in_member: "x \<in> set ys \<Longrightarrow> py_in f x ys \<noteq> Some False"
  by (induction ys) (auto split: option.splits bool.splits)

lemma py_all_in_subset: "set xs \<subseteq> set ys \<Longrightarrow> py_all_in f xs ys \<noteq> Some False"
proof (induction xs)
  case Nil
  show ?case by simp
next
  case (Cons x xs)
  then have "py_in f x ys \<noteq> Some False" "py_all_in f xs ys \<noteq> Some False"
    by (simp_all add: py_in_member)
  then show ?case by (auto split: option.splits)
qed

lemma py_in_total: "(\<And>e. e \<in> set ys \<Longrightarrow> f e x \<noteq> None) \<Longrightarrow> py_in f x ys \<noteq> None"
proof (induction ys)
  case Nil
  show ?case by simp
next
  case (Cons e es)
  have "f e x \<noteq> None" by (rule Cons.prems) simp
  then obtain v where v: "f e x = Some v" by blast
  have "py_in f x es \<noteq> None" by (rule Cons.IH) (simp add: Cons.prems)
  then obtain w where w: "py_in f x es = Some w" by blast
  show ?case by (cases v) (auto simp: v w)
qed

lemma py_all_in_total:
  "(\<And>x e. x \<in> set xs \<Longrightarrow> e \<in> set ys \<Longrightarrow> f e x \<noteq> None) \<Longrightarrow> py_all_in f xs ys \<noteq> None"
proof (induction xs)
  case Nil
  show ?case by simp
next
  case (Cons x xs)
  have "py_in f x ys \<noteq> None" by (rule py_in_total) (simp add: Cons.prems)
  then obtain v where v: "py_in f x ys = Some v" by blast
  have "py_all_in f xs ys \<noteq> None" by (rule Cons.IH) (simp add: Cons.prems)
  then obtain w where w: "py_all_in f xs ys = Some w" by blast
  show ?case by (simp add: v w)
qed

lemma acyclic_storeD:
  assumes "acyclic_store h" "i < length h" "c \<in> set (children (h ! i))"
  shows "i < c \<and> c < length h"
proof -
  have "i \<in> set [0..<length h]" using assms(2) by simp
  with assms(1) have "\<forall>c\<in>set (children (h ! i)). i < c \<and> c < length h"
    unfolding acyclic_store_def by (rule bspec)
  then show ?thesis using assms(3) by (rule bspec)
qed

lemma closed_storeD:
  assumes "closed_store h" "i < length h" "c \<in> set (children (h ! i))"
  shows "c < length h"
proof -
  have "i \<in> set [0..<length h]" using assms(2) by simp
  with assms(1) have "\<forall>c\<in>set (children (h ! i)). c < length h"
    unfolding closed_store_def by (rule bspec)
  then show ?thesis using assms(3) by (rule bspec)
qed

lemma same_but_parentsD:
  assumes "same_but_parents h h'" "i < length h"
  shows "puzzle (h' ! i) = puzzle (h ! i)" "children (h' ! i) = children (h ! i)"
proof -
  from assms(1) have m: "map puzzle h' = map puzzle h" "map children h' = map children h"
    by (simp_all add: same_but_parents_def)
  from m(1) have l: "length h' = length h" by (metis length_map)
  from m(1) have "map puzzle h' ! i = map puzzle h ! i" by simp
  with assms(2) l show "puzzle (h' ! i) = puzzle (h ! i)" by simp
  from m(2) have "map children h' ! i = map children h ! i" by simp
  with assms(2) l show "children (h' ! i) = children (h ! i)" by simp
qed

lemma PuzzleNode_eq_parents:
  assumes sbp: "same_but_parents h h'" and ac: "closed_store h"
  shows "a < length h \<Longrightarrow> (\<And>b. other = Node b \<Longrightarrow> b < length h) \<Longrightarrow>
         PuzzleNode_eq d P h' a other = PuzzleNode_eq d P h a other"
proof (induction d arbitrary: a other)
  case 0
  show ?case by simp
next
  case (Suc d)
  show ?case
  proof (cases other)
    case Other
    then show ?thesis by simp
  next
    case (Node b)
    have al: "a < length h" by (rule Suc.prems(1))
    have bl: "b < length h" by (rule Suc.prems(2)[OF Node])
    have same: "puzzle (h' ! a) = puzzle (h ! a)" "children (h' ! a) = children (h ! a)"
       "puzzle (h' ! b) = puzzle (h ! b)" "children (h' ! b) = children (h ! b)"
      using same_but_parentsD[OF sbp al] same_but_parentsD[OF sbp bl] by simp_all
    have inb: "x < length h" if "x \<in> set (children (h ! a)) \<or> x \<in> set (children (h ! b))" for x
      using that closed_storeD[OF ac al, of x] closed_storeD[OF ac bl, of x] by blast
    have sub: "PuzzleNode_eq d P h' x (Node e) = PuzzleNode_eq d P h x (Node e)"
      if "x \<in> set (children (h ! a)) \<or> x \<in> set (children (h ! b))"
         "e \<in> set (children (h ! a)) \<or> e \<in> set (children (h ! b))" for x e
    proof (rule Suc.IH)
      show "x < length h" by (rule inb[OF that(1)])
      show "b' < length h" if "Node e = Node b'" for b'
        using that inb[OF \<open>e \<in> set (children (h ! a)) \<or> e \<in> set (children (h ! b))\<close>] by simp
    qed
    have 1: "py_all_in (\<lambda>n m. PuzzleNode_eq d P h' n (Node m)) (children (h ! b)) (children (h ! a)) =
             py_all_in (\<lambda>n m. PuzzleNode_eq d P h n (Node m)) (children (h ! b)) (children (h ! a))"
      by (rule py_all_in_cong[where f = "\<lambda>n m. PuzzleNode_eq d P h' n (Node m)"
            and g = "\<lambda>n m. PuzzleNode_eq d P h n (Node m)"]) (rule sub, blast, blast)
    have 2: "py_all_in (\<lambda>n m. PuzzleNode_eq d P h' n (Node m)) (children (h ! a)) (children (h ! b)) =
             py_all_in (\<lambda>n m. PuzzleNode_eq d P h n (Node m)) (children (h ! a)) (children (h ! b))"
      by (rule py_all_in_cong[where f = "\<lambda>n m. PuzzleNode_eq d P h' n (Node m)"
            and g = "\<lambda>n m. PuzzleNode_eq d P h n (Node m)"]) (rule sub, blast, blast)
    show ?thesis unfolding Node by (simp only: PuzzleNode_eq.simps same 1 2)
  qed
qed

lemma PuzzleNode_eq_total:
  assumes ac: "acyclic_store h"
  shows "a < length h \<Longrightarrow> b < length h \<Longrightarrow> length h - min a b < d \<Longrightarrow>
         PuzzleNode_eq d P h a (Node b) \<noteq> None"
proof (induction d arbitrary: a b)
  case 0
  then show ?case by simp
next
  case (Suc d)
  note al = Suc.prems(1) and bl = Suc.prems(2)
  have inb: "x < length h \<and> min a b < x"
    if "x \<in> set (children (h ! a)) \<or> x \<in> set (children (h ! b))" for x
    using that acyclic_storeD[OF ac al, of x] acyclic_storeD[OF ac bl, of x] by auto
  have sub: "PuzzleNode_eq d P h x (Node e) \<noteq> None"
    if x: "x \<in> set (children (h ! a)) \<or> x \<in> set (children (h ! b))"
      and e: "e \<in> set (children (h ! a)) \<or> e \<in> set (children (h ! b))" for x e
  proof (rule Suc.IH)
    show "x < length h" using inb[OF x] by simp
    show "e < length h" using inb[OF e] by simp
    have "min a b < min x e" using inb[OF x] inb[OF e] by simp
    moreover have "min x e < length h" using inb[OF x] by (simp add: min_def)
    ultimately show "length h - min x e < d" using Suc.prems(3) by linarith
  qed
  have "py_all_in (\<lambda>n m. PuzzleNode_eq d P h n (Node m)) (children (h ! b)) (children (h ! a)) \<noteq> None"
    by (rule py_all_in_total[where f = "\<lambda>n m. PuzzleNode_eq d P h n (Node m)"]) (rule sub, blast, blast)
  then obtain v where v:
    "py_all_in (\<lambda>n m. PuzzleNode_eq d P h n (Node m)) (children (h ! b)) (children (h ! a)) = Some v"
    by blast
  have "py_all_in (\<lambda>n m. PuzzleNode_eq d P h n (Node m)) (children (h ! a)) (children (h ! b)) \<noteq> None"
    by (rule py_all_in_total[where f = "\<lambda>n m. PuzzleNode_eq d P h n (Node m)"]) (rule sub, blast, blast)
  then obtain w where w:
    "py_all_in (\<lambda>n m. PuzzleNode_eq d P h n (Node m)) (children (h ! a)) (children (h ! b)) = Some w"
    by blast
  show ?case by (cases v) (auto simp: v w)
qed

lemma PuzzleNode_eq_same_children:
  assumes "eq P (puzzle (h ! a)) (puzzle (h ! b))" "set (children (h ! a)) = set (children (h ! b))"
  shows "PuzzleNode_eq d P h a (Node b) \<noteq> Some False"
proof (cases d)
  case 0
  then show ?thesis by simp
next
  case (Suc d')
  have "py_all_in (\<lambda>n m. PuzzleNode_eq d' P h n (Node m)) (children (h ! b)) (children (h ! a)) \<noteq> Some False"
       "py_all_in (\<lambda>n m. PuzzleNode_eq d' P h n (Node m)) (children (h ! a)) (children (h ! b)) \<noteq> Some False"
    using assms(2) by (simp_all add: py_all_in_subset)
  with Suc assms(1) show ?thesis by (simp split: option.splits bool.splits)
qed

lemma py_in_True:
  "py_in f x ys = Some True \<Longrightarrow> \<exists>e\<in>set ys. e = x \<or> f e x = Some True"
  by (induction ys) (auto split: if_splits option.splits bool.splits)

lemma py_in_False:
  "py_in f x ys = Some False \<Longrightarrow> \<forall>e\<in>set ys. e \<noteq> x \<and> f e x = Some False"
  by (induction ys) (auto split: if_splits option.splits bool.splits)

lemma py_all_in_True:
  "py_all_in f xs ys = Some True \<Longrightarrow> \<forall>x\<in>set xs. py_in f x ys = Some True"
  by (induction xs) (auto split: option.splits)

lemma py_all_in_False:
  "py_all_in f xs ys = Some False \<Longrightarrow> \<exists>x\<in>set xs. py_in f x ys = Some False"
  by (induction xs) (auto split: option.splits)

lemma py_all_in_True_contained:
  assumes "py_all_in f xs ys = Some True"
  shows "\<forall>x\<in>set xs. \<exists>e\<in>set ys. e = x \<or> f e x = Some True"
proof
  fix x assume "x \<in> set xs"
  with py_all_in_True[OF assms] have "py_in f x ys = Some True" by (rule bspec)
  then show "\<exists>e\<in>set ys. e = x \<or> f e x = Some True" by (rule py_in_True)
qed

lemma py_all_in_False_not_contained:
  assumes "py_all_in f xs ys = Some False"
  shows "\<exists>x\<in>set xs. \<forall>e\<in>set ys. e \<noteq> x \<and> f e x = Some False"
proof -
  from py_all_in_False[OF assms] obtain x where x: "x \<in> set xs" "py_in f x ys = Some False"
    by blast
  from x(2) have "\<forall>e\<in>set ys. e \<noteq> x \<and> f e x = Some False" by (rule py_in_False)
  with x(1) show ?thesis by blast
qed

lemma PuzzleNode_eq_cases:
  assumes "PuzzleNode_eq (Suc d) P h a (Node b) = Some r"
  shows "(r \<and> eq P (puzzle (h ! a)) (puzzle (h ! b)) \<and>
          py_all_in (\<lambda>n m. PuzzleNode_eq d P h n (Node m))
            (children (h ! b)) (children (h ! a)) = Some True \<and>
          py_all_in (\<lambda>n m. PuzzleNode_eq d P h n (Node m))
            (children (h ! a)) (children (h ! b)) = Some True) \<or>
         (\<not> r \<and> (\<not> eq P (puzzle (h ! a)) (puzzle (h ! b)) \<or>
          py_all_in (\<lambda>n m. PuzzleNode_eq d P h n (Node m))
            (children (h ! b)) (children (h ! a)) = Some False \<or>
          py_all_in (\<lambda>n m. PuzzleNode_eq d P h n (Node m))
            (children (h ! a)) (children (h ! b)) = Some False))"
  using assms by (auto split: if_splits option.splits bool.splits)

lemma PuzzleNode_eq_iff:
  assumes "PuzzleNode_eq (Suc d) P h a other = Some r"
  shows "r = (\<exists>b. other = Node b \<and> eq P (puzzle (h ! a)) (puzzle (h ! b)) \<and>
               (\<forall>x\<in>set (children (h ! b)). \<exists>e\<in>set (children (h ! a)).
                   e = x \<or> PuzzleNode_eq d P h e (Node x) = Some True) \<and>
               (\<forall>x\<in>set (children (h ! a)). \<exists>e\<in>set (children (h ! b)).
                   e = x \<or> PuzzleNode_eq d P h e (Node x) = Some True))"
proof (cases other)
  case Other
  with assms show ?thesis by simp
next
  case (Node b)
  let ?f = "\<lambda>n m. PuzzleNode_eq d P h n (Node m)"
  let ?A = "children (h ! a)" and ?B = "children (h ! b)"
  from assms Node have r: "PuzzleNode_eq (Suc d) P h a (Node b) = Some r" by simp
  from PuzzleNode_eq_cases[OF r] show ?thesis
  proof
    assume t: "r \<and> eq P (puzzle (h ! a)) (puzzle (h ! b)) \<and>
       py_all_in ?f ?B ?A = Some True \<and> py_all_in ?f ?A ?B = Some True"
    then have 1: "\<forall>x\<in>set ?B. \<exists>e\<in>set ?A. e = x \<or> ?f e x = Some True"
      by (intro py_all_in_True_contained) simp
    from t have 2: "\<forall>x\<in>set ?A. \<exists>e\<in>set ?B. e = x \<or> ?f e x = Some True"
      by (intro py_all_in_True_contained) simp
    from t 1 2 show ?thesis unfolding Node by simp
  next
    assume f: "\<not> r \<and> (\<not> eq P (puzzle (h ! a)) (puzzle (h ! b)) \<or>
       py_all_in ?f ?B ?A = Some False \<or> py_all_in ?f ?A ?B = Some False)"
    have "\<not> (eq P (puzzle (h ! a)) (puzzle (h ! b)) \<and>
               (\<forall>x\<in>set ?B. \<exists>e\<in>set ?A. e = x \<or> ?f e x = Some True) \<and>
               (\<forall>x\<in>set ?A. \<exists>e\<in>set ?B. e = x \<or> ?f e x = Some True))"
    proof -
      from f consider "\<not> eq P (puzzle (h ! a)) (puzzle (h ! b))"
        | "py_all_in ?f ?B ?A = Some False" | "py_all_in ?f ?A ?B = Some False" by blast
      then show ?thesis
      proof cases
        case 1
        then show ?thesis by simp
      next
        case 2
        from py_all_in_False_not_contained[OF 2]
        obtain x where "x \<in> set ?B" "\<forall>e\<in>set ?A. e \<noteq> x \<and> ?f e x = Some False" by blast
        then have "\<not> (\<forall>x\<in>set ?B. \<exists>e\<in>set ?A. e = x \<or> ?f e x = Some True)" by fastforce
        then show ?thesis by blast
      next
        case 3
        from py_all_in_False_not_contained[OF 3]
        obtain x where "x \<in> set ?A" "\<forall>e\<in>set ?B. e \<noteq> x \<and> ?f e x = Some False" by blast
        then have "\<not> (\<forall>x\<in>set ?A. \<exists>e\<in>set ?B. e = x \<or> ?f e x = Some True)" by fastforce
        then show ?thesis by blast
      qed
    qed
    with f show ?thesis unfolding Node by simp
  qed
qed

lemma PuzzleNode_eq_not_contained:
  assumes "(\<exists>x\<in>set (children (h ! b)). \<forall>e\<in>set (children (h ! a)).
               e \<noteq> x \<and> PuzzleNode_eq d P h e (Node x) \<noteq> Some True) \<or>
           (\<exists>x\<in>set (children (h ! a)). \<forall>e\<in>set (children (h ! b)).
               e \<noteq> x \<and> PuzzleNode_eq d P h e (Node x) \<noteq> Some True)"
  shows "PuzzleNode_eq (Suc d) P h a (Node b) \<noteq> Some True"
proof
  assume "PuzzleNode_eq (Suc d) P h a (Node b) = Some True"
  from PuzzleNode_eq_iff[OF this]
  have c: "(\<forall>x\<in>set (children (h ! b)). \<exists>e\<in>set (children (h ! a)).
                   e = x \<or> PuzzleNode_eq d P h e (Node x) = Some True)"
          "(\<forall>x\<in>set (children (h ! a)). \<exists>e\<in>set (children (h ! b)).
                   e = x \<or> PuzzleNode_eq d P h e (Node x) = Some True)"
    by simp_all
  from assms show False
  proof
    assume "\<exists>x\<in>set (children (h ! b)). \<forall>e\<in>set (children (h ! a)).
               e \<noteq> x \<and> PuzzleNode_eq d P h e (Node x) \<noteq> Some True"
    with c(1) show False by blast
  next
    assume "\<exists>x\<in>set (children (h ! a)). \<forall>e\<in>set (children (h ! b)).
               e \<noteq> x \<and> PuzzleNode_eq d P h e (Node x) \<noteq> Some True"
    with c(2) show False by blast
  qed
qed

subsection \<open>Distances\<close>

lemma reachable_iff: "t \<in> reachable P p0 \<longleftrightarrow> (\<exists>k. (p0, t) \<in> succs P ^^ k)"
  by (auto simp: reachable_def rtrancl_power)

lemma dist_relpow: "(p0, t) \<in> succs P ^^ k \<Longrightarrow> (p0, t) \<in> succs P ^^ dist P p0 t"
  unfolding dist_def by (rule LeastI)

lemma dist_le: "(p0, t) \<in> succs P ^^ k \<Longrightarrow> dist P p0 t \<le> k"
  unfolding dist_def by (rule Least_le)

lemma dist_reachable: "t \<in> reachable P p0 \<Longrightarrow> (p0, t) \<in> succs P ^^ dist P p0 t"
  by (auto simp: reachable_iff intro: dist_relpow)

lemma dist_triangle:
  assumes "s \<in> reachable P p0" "(s, t) \<in> succs P ^^ j"
  shows "dist P p0 t \<le> dist P p0 s + j"
proof -
  have "(p0, s) \<in> succs P ^^ dist P p0 s" using assms(1) by (rule dist_reachable)
  with assms(2) have "(p0, t) \<in> succs P ^^ (dist P p0 s + j)"
    by (auto simp: relpow_add)
  then show ?thesis by (rule dist_le)
qed

lemma reachable_step:
  "s \<in> reachable P p0 \<Longrightarrow> (s, t) \<in> succs P ^^ j \<Longrightarrow> t \<in> reachable P p0"
  unfolding reachable_def by (auto dest: relpow_imp_rtrancl)

lemma wf_store_depth_path:
  assumes "wf_store P p0 h"
  shows "a < length h \<Longrightarrow> (p0, puzzle (h ! a)) \<in> succs P ^^ depth h a"
proof (induction a rule: less_induct)
  case (less a)
  show ?case
  proof (cases "parent (h ! a)")
    case None
    with assms less.prems show ?thesis by (auto simp: wf_store_def depth_None)
  next
    case (Some q)
    with assms less.prems have qa: "q < a"
      and ext: "puzzle (h ! a) \<in> set (extensions P (puzzle (h ! q)))"
      by (auto simp: wf_store_def)
    have "(p0, puzzle (h ! q)) \<in> succs P ^^ depth h q" using less.IH[OF qa] qa less.prems by simp
    moreover have "(puzzle (h ! q), puzzle (h ! a)) \<in> succs P" using ext by (simp add: succs_def)
    ultimately show ?thesis by (auto simp: depth_Some[OF Some qa])
  qed
qed

lemma dist_le_depth:
  "wf_store P p0 h \<Longrightarrow> a < length h \<Longrightarrow> dist P p0 (puzzle (h ! a)) \<le> depth h a"
  by (rule dist_le) (rule wf_store_depth_path)

lemma length_up_depth: "length (up h a) = Suc (depth h a)"
  using up_Nil[of h a] by (cases "up h a") (simp_all add: depth_def)

subsection \<open>The breadth-first loop keeps its invariant\<close>

lemma sorted_map_const: "(\<And>x. x \<in> set xs \<Longrightarrow> f x = k) \<Longrightarrow> sorted (map f xs)"
  by (induction xs) auto

lemma bfs_expand_new:
  assumes "a \<in> set [length (store s)..<length (store s) + length (unseen P s c)]"
  shows "parent (store (bfs_expand P s c q) ! a) = Some c"
    and "puzzle (store (bfs_expand P s c q) ! a) = unseen P s c ! (a - length (store s))"
proof -
  from assms obtain i where i: "a = length (store s) + i" "i < length (unseen P s c)"
    by (auto simp: le_iff_add)
  show "parent (store (bfs_expand P s c q) ! a) = Some c"
    unfolding bfs_expand_simps i(1) nth_append_length_plus using i(2) by simp
  show "puzzle (store (bfs_expand P s c q) ! a) = unseen P s c ! (a - length (store s))"
    unfolding bfs_expand_simps i(1) nth_append_length_plus using i(2) by simp
qed

lemma bfs_expand_depth_old:
  "a < length (store s) \<Longrightarrow> depth (store (bfs_expand P s c q)) a = depth (store s) a"
  by (simp add: bfs_expand_simps depth_append)

lemma bfs_expand_depth_new:
  assumes "a \<in> set [length (store s)..<length (store s) + length (unseen P s c)]"
    and "c < length (store s)"
  shows "depth (store (bfs_expand P s c q)) a = Suc (depth (store s) c)"
proof -
  have "c < a" using assms by simp
  with bfs_expand_new(1)[OF assms(1), of q]
  have "depth (store (bfs_expand P s c q)) a = Suc (depth (store (bfs_expand P s c q)) c)"
    by (rule depth_Some)
  with assms(2) show ?thesis by (simp add: bfs_expand_depth_old)
qed

lemma bfs_expand_unseen_node:
  assumes "e \<in> set (unseen P s c)"
  shows "\<exists>a\<in>set [length (store s)..<length (store s) + length (unseen P s c)].
           puzzle (store (bfs_expand P s c q) ! a) = e"
proof -
  from assms obtain i where i: "i < length (unseen P s c)" "unseen P s c ! i = e"
    by (auto simp: in_set_conv_nth)
  let ?a = "length (store s) + i"
  have m: "?a \<in> set [length (store s)..<length (store s) + length (unseen P s c)]"
    using i(1) by simp
  from bfs_expand_new(2)[OF m, of q] i(2) have "puzzle (store (bfs_expand P s c q) ! ?a) = e"
    by simp
  with m show ?thesis by blast
qed

lemma bfs_opt_expand:
  assumes inv: "bfs_inv P p0 s" and opt: "bfs_opt P p0 s" and w: "work s = c # q"
    and nsol: "\<not> is_solved P (puzzle (store s ! c))"
    and inj: "inj_on (str P) (reachable P p0)"
  shows "bfs_opt P p0 (bfs_expand P s c q)"
proof -
  let ?h = "store s"
  let ?s' = "bfs_expand P s c q"
  let ?h' = "store ?s'"
  let ?N = "[length ?h..<length ?h + length (unseen P s c)]"
  let ?cp = "puzzle (?h ! c)"
  let ?d = "depth ?h c"
  have wf: "wf_store P p0 ?h" and cl: "c < length ?h" and ql: "\<And>a. a \<in> set q \<Longrightarrow> a < length ?h"
    using inv w by (simp_all add: bfs_inv_def)
  have cp_reach: "?cp \<in> reachable P p0" by (rule wf_store_reachable[OF wf cl])
  have work': "work ?s' = q @ ?N" by (simp add: bfs_expand_simps)
  have vis': "visited ?s' = insert (str P ?cp) (visited s)" by (simp add: bfs_expand_simps)
  have d_old: "depth ?h' a = depth ?h a" if "a \<in> set q" for a
    using ql[OF that] by (rule bfs_expand_depth_old)
  have d_new: "depth ?h' a = Suc ?d" if "a \<in> set ?N" for a
    using that cl by (rule bfs_expand_depth_new)
  have p_old: "puzzle (?h' ! a) = puzzle (?h ! a)" if "a \<in> set q" for a
    using ql[OF that] by (simp add: bfs_expand_old)
  from opt w have srt: "sorted (map (depth ?h) (c # q))"
    and bnd: "\<And>a. a \<in> set q \<Longrightarrow> depth ?h a \<le> Suc ?d"
    and I2: "\<And>t. t \<in> reachable P p0 \<Longrightarrow> str P t \<in> visited s \<Longrightarrow>
               \<not> is_solved P t \<and> dist P p0 t \<le> ?d"
    and I3: "\<And>t. t \<in> reachable P p0 \<Longrightarrow> str P t \<notin> visited s \<Longrightarrow>
               \<exists>a\<in>set (c # q). \<exists>j. (puzzle (?h ! a), t) \<in> succs P ^^ j \<and>
                                  depth ?h a + j = dist P p0 t"
    by (simp_all add: bfs_opt_def)
  from srt have ge: "\<And>a. a \<in> set q \<Longrightarrow> ?d \<le> depth ?h a" and srtq: "sorted (map (depth ?h) q)"
    by simp_all
  have dcp: "dist P p0 ?cp \<le> ?d" by (rule dist_le_depth[OF wf cl])
  \<comment> \<open>every state with a visited string has distance at most the depth of the node taken\<close>
  have V: "\<not> is_solved P t \<and> dist P p0 t \<le> ?d"
    if "t \<in> reachable P p0" "str P t \<in> visited ?s'" for t
  proof (cases "str P t \<in> visited s")
    case True
    then show ?thesis using I2[OF that(1)] by simp
  next
    case False
    with that(2) vis' have "str P t = str P ?cp" by simp
    with inj that(1) cp_reach have "t = ?cp" by (simp add: inj_on_def)
    with nsol dcp show ?thesis by simp
  qed
  have 1: "sorted (map (depth ?h') (work ?s'))"
  proof -
    have "map (depth ?h') q = map (depth ?h) q" by (rule map_cong[OF refl]) (rule d_old)
    with srtq have "sorted (map (depth ?h') q)" by (simp only:)
    moreover have "sorted (map (depth ?h') ?N)" by (rule sorted_map_const[of _ _ "Suc ?d"]) (rule d_new)
    moreover have "\<forall>x\<in>set q. \<forall>y\<in>set ?N. depth ?h' x \<le> depth ?h' y"
      using d_old d_new bnd by simp
    ultimately show ?thesis unfolding work' by (simp add: sorted_append)
  qed
  have 2: "\<forall>a\<in>set (work ?s'). depth ?h' a \<le> Suc (depth ?h' (hd (work ?s')))"
  proof (cases q)
    case Nil
    then show ?thesis unfolding work' using d_new by (cases ?N) auto
  next
    case (Cons b q')
    then have hdq: "hd (q @ ?N) = b" and bq: "b \<in> set q" by simp_all
    have "?d \<le> depth ?h' b" using ge[OF bq] d_old[OF bq] by simp
    moreover have "depth ?h' a \<le> Suc ?d" if "a \<in> set (q @ ?N)" for a
      using that d_old[of a] d_new[of a] bnd[of a] by auto
    ultimately show ?thesis unfolding work' hdq by (meson Suc_le_mono le_trans)
  qed
  have 3: "\<forall>t\<in>reachable P p0. str P t \<in> visited ?s' \<longrightarrow>
        \<not> is_solved P t \<and> (\<forall>a\<in>set (work ?s'). dist P p0 t \<le> depth ?h' a)"
  proof (intro ballI impI conjI)
    fix t assume t: "t \<in> reachable P p0" "str P t \<in> visited ?s'"
    from V[OF t] show "\<not> is_solved P t" by simp
    fix a assume "a \<in> set (work ?s')"
    then have "?d \<le> depth ?h' a" unfolding work' using ge[of a] d_old[of a] d_new[of a] by auto
    with V[OF t] show "dist P p0 t \<le> depth ?h' a" by simp
  qed
  have 4: "\<forall>t\<in>reachable P p0. str P t \<notin> visited ?s' \<longrightarrow>
        (\<exists>a\<in>set (work ?s'). \<exists>j. (puzzle (?h' ! a), t) \<in> succs P ^^ j \<and>
                                depth ?h' a + j = dist P p0 t)"
  proof (intro ballI impI)
    fix t assume t: "t \<in> reachable P p0" and nv': "str P t \<notin> visited ?s'"
    from nv' vis' have nv: "str P t \<notin> visited s" and ne: "str P t \<noteq> str P ?cp" by simp_all
    from I3[OF t nv] obtain a j where a: "a \<in> set (c # q)"
      and j: "(puzzle (?h ! a), t) \<in> succs P ^^ j" "depth ?h a + j = dist P p0 t" by blast
    show "\<exists>a\<in>set (work ?s'). \<exists>j. (puzzle (?h' ! a), t) \<in> succs P ^^ j \<and>
                                depth ?h' a + j = dist P p0 t"
    proof (cases "a \<in> set q")
      case True
      have "(puzzle (?h' ! a), t) \<in> succs P ^^ j \<and> depth ?h' a + j = dist P p0 t"
        using j p_old[OF True] d_old[OF True] by simp
      moreover have "a \<in> set (work ?s')" using True unfolding work' by simp
      ultimately show ?thesis by blast
    next
      case False
      with a have ac: "a = c" by simp
      from ne have "t \<noteq> ?cp" by auto
      with j(1) ac have "j \<noteq> 0" by (cases j) auto
      then obtain j' where j': "j = Suc j'" by (cases j) auto
      from j(1) ac j' have "(?cp, t) \<in> succs P ^^ Suc j'" by (simp only:)
      from relpow_Suc_D2[OF this] obtain e where e: "(?cp, e) \<in> succs P" "(e, t) \<in> succs P ^^ j'"
        by blast
      have e_reach: "e \<in> reachable P p0"
        using cp_reach e(1) by (auto simp: reachable_def intro: rtrancl_into_rtrancl)
      have "str P e \<notin> visited ?s'"
      proof
        assume "str P e \<in> visited ?s'"
        from V[OF e_reach this] have "dist P p0 e \<le> ?d" by simp
        moreover have "dist P p0 t \<le> dist P p0 e + j'" by (rule dist_triangle[OF e_reach e(2)])
        ultimately show False using j(2) ac j' by simp
      qed
      moreover have "e \<in> set (extensions P ?cp)" using e(1) by (simp add: succs_def)
      ultimately have "e \<in> set (unseen P s c)" by (simp add: unseen_def vis')
      from bfs_expand_unseen_node[OF this, of q] obtain b where
        b: "b \<in> set ?N" "puzzle (?h' ! b) = e" by blast
      have "(puzzle (?h' ! b), t) \<in> succs P ^^ j' \<and> depth ?h' b + j' = dist P p0 t"
        using d_new[OF b(1)] j(2) ac j' b(2) e(2) by simp
      moreover have "b \<in> set (work ?s')" using b(1) unfolding work' by simp
      ultimately show ?thesis by blast
    qed
  qed
  from 1 2 3 4 show ?thesis unfolding bfs_opt_def by blast
qed

subsection \<open>The breadth-first path is a shortest one\<close>

lemma bfs_opt_init:
  "bfs_opt P p \<lparr>store = [\<lparr>puzzle = p, children = [], parent = None\<rparr>], work = [0], visited = {},
               expanded = []\<rparr>"
proof -
  have "\<exists>j. (p, t) \<in> succs P ^^ j \<and> depth [\<lparr>puzzle = p, children = [], parent = None\<rparr>] 0 + j = dist P p t"
    if "t \<in> reachable P p" for t
    using dist_reachable[OF that] by (auto simp: depth_None)
  then show ?thesis by (simp add: bfs_opt_def)
qed

lemma bfs_loop_shortest:
  assumes "bfs_loop P s = Some res" and "bfs_inv P p0 s" and "bfs_opt P p0 s"
    and "inj_on (str P) (reachable P p0)"
  shows "\<forall>path. snd res = Some path \<longrightarrow>
           (\<exists>r chain. path = [r] \<and> hd chain = r \<and> solution_chain P (store (fst res)) chain \<and>
              (\<forall>k t. (p0, t) \<in> succs P ^^ k \<and> is_solved P t \<longrightarrow> length chain \<le> Suc k))"
  using assms
proof (induction rule: bfs_loop.raw_induct[rotated 1, consumes 1, case_names step])
  case (step loop P s res)
  note body = step.hyps and inv = step.prems(1) and opt = step.prems(2) and inj = step.prems(3)
  show ?case
  proof (cases "work s")
    case Nil
    with body show ?thesis by auto
  next
    case (Cons c q)
    let ?s' = "bfs_expand P s c q"
    have inv': "bfs_inv P p0 ?s'" by (rule bfs_inv_expand[OF inv Cons])
    have cl0: "c < length (store s)" using inv Cons by (simp add: bfs_inv_def)
    have pc: "puzzle (store ?s' ! c) = puzzle (store s ! c)" using cl0 by (simp add: bfs_expand_old)
    show ?thesis
    proof (cases "is_solved P (puzzle (store ?s' ! c))")
      case sol: True
      have wf: "wf_store P p0 (store ?s')" using inv' by (simp add: bfs_inv_def)
      have cl: "c < length (store ?s')" using cl0 by (simp add: bfs_expand_simps)
      from bfs_rewire_chain[OF wf cl sol] obtain h' where
        r: "bfs_rewire (store ?s') c = Some (h', last (up (store ?s') c))" and
        g: "solution_chain P h' (rev (up (store ?s') c))"
        by blast
      from Cons sol r body
      have res: "res = (?s'\<lparr>store := h'\<rparr>, Some [last (up (store ?s') c)])"
        by simp
      have len: "length (rev (up (store ?s') c)) = Suc (depth (store s) c)"
        using cl0 by (simp add: length_up_depth bfs_expand_depth_old)
      have short: "length (rev (up (store ?s') c)) \<le> Suc k"
        if kt: "(p0, t) \<in> succs P ^^ k \<and> is_solved P t" for k t
      proof -
        from kt have reach: "t \<in> reachable P p0" by (auto simp: reachable_iff)
        from opt reach kt have "str P t \<notin> visited s" by (auto simp: bfs_opt_def)
        with opt reach obtain a j where a: "a \<in> set (work s)"
          and j: "depth (store s) a + j = dist P p0 t" unfolding bfs_opt_def by blast
        from opt Cons have "sorted (map (depth (store s)) (c # q))" by (simp add: bfs_opt_def)
        with a Cons have "depth (store s) c \<le> depth (store s) a" by auto
        moreover from kt have "dist P p0 t \<le> k" by (simp add: dist_le)
        ultimately show ?thesis using j len by simp
      qed
      from g hd_rev_up[of "store ?s'" c] short show ?thesis unfolding res by auto
    next
      case False
      with Cons body have l: "loop P ?s' = Some res" by simp
      from False pc have nsol: "\<not> is_solved P (puzzle (store s ! c))" by simp
      have opt': "bfs_opt P p0 ?s'" by (rule bfs_opt_expand[OF inv opt Cons nsol inj])
      from l inv' opt' inj show ?thesis by (rule step.IH)
    qed
  qed
qed

lemma breadth_first_solve_shortest:
  assumes "breadth_first_solve P p = Some (s, Some r)" and "inj_on (str P) (reachable P p)"
  shows "\<exists>path. hd path = r \<and> solution_chain P (store s) path \<and>
           (\<forall>k t. (p, t) \<in> succs P ^^ k \<and> is_solved P t \<longrightarrow> length path \<le> Suc k)"
proof -
  let ?s0 = "\<lparr>store = [\<lparr>puzzle = p, children = [], parent = None\<rparr>], work = [0], visited = {},
              expanded = []\<rparr>"
  have inv: "bfs_inv P p ?s0" by (simp add: bfs_inv_def wf_store_def)
  from assms(1) obtain path where
    l: "bfs_loop P ?s0 = Some (s, path)" and
    p: "(case path of None \<Rightarrow> None | Some [] \<Rightarrow> None | Some (r # _) \<Rightarrow> Some r) = Some r"
    by (auto simp: breadth_first_solve_def breadth_first_search_def new_PuzzleNode_def
             split: option.splits)
  from p obtain rest where path: "path = Some (r # rest)"
    by (auto split: option.splits list.splits)
  from bfs_loop_shortest[OF l inv bfs_opt_init assms(2)] path show ?thesis by auto
qed

subsection \<open>Puzzles that agree on the reachable states\<close>

lemma agreeD:
  "agree P P' S \<Longrightarrow> t \<in> S \<Longrightarrow>
   is_solved P' t = is_solved P t \<and> extensions P' t = extensions P t \<and> str P' t = str P t"
  unfolding agree_def by (rule bspec)

lemma reachable_refl: "p \<in> reachable P p"
  by (simp add: reachable_def)

lemma reachable_ext: "s \<in> reachable P p \<Longrightarrow> t \<in> set (extensions P s) \<Longrightarrow> t \<in> reachable P p"
  by (auto simp: reachable_def succs_def intro: rtrancl_into_rtrancl)

lemma agree_reachable_subset:
  assumes "agree P P' (reachable P p)"
  shows "t \<in> reachable P' p \<Longrightarrow> t \<in> reachable P p"
proof -
  assume "t \<in> reachable P' p"
  then have "(p, t) \<in> (succs P')\<^sup>*" by (simp add: reachable_def)
  then show ?thesis
  proof (induction rule: rtrancl_induct)
    case base
    show ?case by (rule reachable_refl)
  next
    case (step y z)
    from agreeD[OF assms step.IH] step.hyps(2) have "z \<in> set (extensions P y)"
      by (simp add: succs_def)
    with step.IH show ?case by (rule reachable_ext)
  qed
qed

lemma agree_sym:
  assumes "agree P P' (reachable P p)"
  shows "agree P' P (reachable P' p)"
  unfolding agree_def
proof
  fix t assume "t \<in> reachable P' p"
  then have "t \<in> reachable P p" by (rule agree_reachable_subset[OF assms])
  from agreeD[OF assms this]
  show "is_solved P t = is_solved P' t \<and> extensions P t = extensions P' t \<and> str P t = str P' t"
    by simp
qed

lemma wf_store_agree:
  assumes ag: "agree P P' (reachable P p0)" and wf: "wf_store P p0 h"
  shows "wf_store P' p0 h"
  unfolding wf_store_def
proof (intro allI impI)
  fix a assume al: "a < length h"
  from wf al have ch: "children (h ! a) = []" by (simp add: wf_store_def)
  show "children (h ! a) = [] \<and>
        (case parent (h ! a) of None \<Rightarrow> puzzle (h ! a) = p0
         | Some q \<Rightarrow> q < a \<and> puzzle (h ! a) \<in> set (extensions P' (puzzle (h ! q))))"
  proof (cases "parent (h ! a)")
    case None
    with wf al ch show ?thesis by (auto simp: wf_store_def)
  next
    case (Some q)
    with wf al have qa: "q < a" and ext: "puzzle (h ! a) \<in> set (extensions P (puzzle (h ! q)))"
      by (auto simp: wf_store_def)
    have "puzzle (h ! q) \<in> reachable P p0" using wf_store_reachable[OF wf, of q] qa al by simp
    from agreeD[OF ag this] ext Some qa ch show ?thesis by simp
  qed
qed

lemma bfs_inv_agree: "agree P P' (reachable P p0) \<Longrightarrow> bfs_inv P p0 s \<Longrightarrow> bfs_inv P' p0 s"
  by (simp add: bfs_inv_def wf_store_agree)

lemma bfs_inv_dfs_skip:
  "bfs_inv P p0 s \<Longrightarrow> work s = c # st \<Longrightarrow> bfs_inv P p0 (s\<lparr>work := st\<rparr>)"
  by (simp add: bfs_inv_def)

lemma bfs_inv_dfs_expand:
  assumes "bfs_inv P p0 s" "work s = c # st"
  shows "bfs_inv P p0 (dfs_expand P (dfs_mark P s c st) c)"
proof -
  have cl: "c < length (store s)" using assms by (simp add: bfs_inv_def)
  have wf: "wf_store P p0 (store s)" using assms(1) by (simp add: bfs_inv_def)
  have "wf_store P p0 (store (dfs_expand P (dfs_mark P s c st) c))"
    unfolding dfs_expand_simps dfs_mark_simps
    by (rule wf_store_append[OF wf]) (use cl in auto)
  moreover have "\<forall>a\<in>set (work (dfs_expand P (dfs_mark P s c st) c)).
                   a < length (store (dfs_expand P (dfs_mark P s c st) c))"
    unfolding dfs_expand_simps dfs_mark_simps
    using assms by (auto simp: bfs_inv_def)
  ultimately show ?thesis unfolding bfs_inv_def by blast
qed

lemma bfs_enqueue_agree:
  "(\<And>e. e \<in> set es \<Longrightarrow> str P' e = str P e) \<Longrightarrow>
   bfs_enqueue P' vis c es (h, q) = bfs_enqueue P vis c es (h, q)"
proof (induction es arbitrary: h q)
  case Nil
  show ?case by simp
next
  case (Cons e es)
  have e: "str P' e = str P e" by (rule Cons.prems) simp
  have r: "bfs_enqueue P' vis c es hq = bfs_enqueue P vis c es hq" for hq
    by (cases hq) (simp add: Cons.IH Cons.prems)
  show ?case by (simp add: e r Let_def split_beta)
qed

lemma dfs_step_agree:
  assumes "agree P P' (reachable P p0)" "bfs_inv P p0 s" "work s = c # st"
  shows "str P' (puzzle (store s ! c)) = str P (puzzle (store s ! c))"
    and "is_solved P' (puzzle (store s ! c)) = is_solved P (puzzle (store s ! c))"
    and "dfs_mark P' s c st = dfs_mark P s c st"
    and "dfs_expand P' (dfs_mark P' s c st) c = dfs_expand P (dfs_mark P s c st) c"
    and "bfs_expand P' s c st = bfs_expand P s c st"
proof -
  have cl: "c < length (store s)" and wf: "wf_store P p0 (store s)"
    using assms(2,3) by (simp_all add: bfs_inv_def)
  have reach: "puzzle (store s ! c) \<in> reachable P p0" by (rule wf_store_reachable[OF wf cl])
  note ag = agreeD[OF assms(1) reach]
  have a1: "is_solved P' (puzzle (store s ! c)) = is_solved P (puzzle (store s ! c))"
    using ag by (rule conjunct1)
  have a2: "extensions P' (puzzle (store s ! c)) = extensions P (puzzle (store s ! c))"
    using ag by (elim conjE)
  have a3: "str P' (puzzle (store s ! c)) = str P (puzzle (store s ! c))"
    using ag by (elim conjE)
  show "str P' (puzzle (store s ! c)) = str P (puzzle (store s ! c))" by (rule a3)
  show "is_solved P' (puzzle (store s ! c)) = is_solved P (puzzle (store s ! c))" by (rule a1)
  show m: "dfs_mark P' s c st = dfs_mark P s c st" unfolding dfs_mark_def a3 by (rule refl)
  show "dfs_expand P' (dfs_mark P' s c st) c = dfs_expand P (dfs_mark P s c st) c"
    unfolding m dfs_expand_def dfs_mark_simps a2 by (rule refl)
  show "bfs_expand P' s c st = bfs_expand P s c st"
  proof -
    have "str P' e = str P e" if "e \<in> set (extensions P (puzzle (store s ! c)))" for e
      using agreeD[OF assms(1) reachable_ext[OF reach that]] by (elim conjE)
    then have "bfs_enqueue P' vis c (extensions P (puzzle (store s ! c))) (store s, st) =
               bfs_enqueue P vis c (extensions P (puzzle (store s ! c))) (store s, st)" for vis
      by (rule bfs_enqueue_agree)
    then show ?thesis unfolding bfs_expand_def a2 a3 by (simp only:)
  qed
qed

lemma dfs_loop_agree_le:
  assumes "dfs_loop P s = Some res" and "bfs_inv P p0 s" and "agree P P' (reachable P p0)"
  shows "dfs_loop P' s = Some res"
  using assms
proof (induction rule: dfs_loop.raw_induct[rotated 1, consumes 1, case_names step])
  case (step loop P s res)
  note body = step.hyps and inv = step.prems(1) and ag = step.prems(2)
  show ?case
  proof (cases "work s")
    case Nil
    with body have "res = (s, None)" by simp
    with Nil show ?thesis by (subst dfs_loop.simps) simp
  next
    case (Cons c st)
    note eqs = dfs_step_agree[OF ag inv Cons]
    show ?thesis
    proof (cases "str P (puzzle (store s ! c)) \<in> visited s")
      case True
      with Cons body have "loop P (s\<lparr>work := st\<rparr>) = Some res" by simp
      then have "dfs_loop P' (s\<lparr>work := st\<rparr>) = Some res"
        using bfs_inv_dfs_skip[OF inv Cons] ag by (rule step.IH)
      with Cons True eqs(1) show ?thesis by (subst dfs_loop.simps) simp
    next
      case False
      show ?thesis
      proof (cases "is_solved P (puzzle (store s ! c))")
        case sol: True
        with Cons False body have b:
          "(case dfs_path_maker (store s) c of None \<Rightarrow> None
            | Some (h, root) \<Rightarrow> Some ((dfs_mark P s c st)\<lparr>store := h\<rparr>, Some root)) = Some res"
          by simp
        have "dfs_loop P' s =
          (case dfs_path_maker (store s) c of None \<Rightarrow> None
            | Some (h, root) \<Rightarrow> Some ((dfs_mark P' s c st)\<lparr>store := h\<rparr>, Some root))"
          using Cons False sol eqs(1,2) by (subst dfs_loop.simps) simp
        also have "\<dots> = Some res" unfolding eqs(3) by (rule b)
        finally show ?thesis .
      next
        case nsol: False
        with Cons False body
        have "loop P (dfs_expand P (dfs_mark P s c st) c) = Some res" by simp
        then have "dfs_loop P' (dfs_expand P (dfs_mark P s c st) c) = Some res"
          using bfs_inv_dfs_expand[OF inv Cons] ag by (rule step.IH)
        with Cons False nsol eqs(1,2,4) show ?thesis by (subst dfs_loop.simps) simp
      qed
    qed
  qed
qed

lemma bfs_loop_agree_le:
  assumes "bfs_loop P s = Some res" and "bfs_inv P p0 s" and "agree P P' (reachable P p0)"
  shows "bfs_loop P' s = Some res"
  using assms
proof (induction rule: bfs_loop.raw_induct[rotated 1, consumes 1, case_names step])
  case (step loop P s res)
  note body = step.hyps and inv = step.prems(1) and ag = step.prems(2)
  show ?case
  proof (cases "work s")
    case Nil
    with body have "res = (s, None)" by simp
    with Nil show ?thesis by (subst bfs_loop.simps) simp
  next
    case (Cons c q)
    note eqs = dfs_step_agree[OF ag inv Cons]
    have cl: "c < length (store s)" using inv Cons by (simp add: bfs_inv_def)
    have pc: "puzzle (store (bfs_expand P s c q) ! c) = puzzle (store s ! c)"
      using cl by (simp add: bfs_expand_old)
    show ?thesis
    proof (cases "is_solved P (puzzle (store s ! c))")
      case sol: True
      with Cons body pc have b:
        "(case bfs_rewire (store (bfs_expand P s c q)) c of None \<Rightarrow> None
          | Some (h, snode) \<Rightarrow> Some ((bfs_expand P s c q)\<lparr>store := h\<rparr>, Some [snode])) = Some res"
        by simp
      have "bfs_loop P' s =
        (case bfs_rewire (store (bfs_expand P' s c q)) c of None \<Rightarrow> None
          | Some (h, snode) \<Rightarrow> Some ((bfs_expand P' s c q)\<lparr>store := h\<rparr>, Some [snode]))"
        using Cons sol pc eqs(2,5) by (subst bfs_loop.simps) simp
      also have "\<dots> = Some res" unfolding eqs(5) by (rule b)
      finally show ?thesis .
    next
      case nsol: False
      with Cons body pc have "loop P (bfs_expand P s c q) = Some res" by simp
      then have "bfs_loop P' (bfs_expand P s c q) = Some res"
        using bfs_inv_expand[OF inv Cons] ag by (rule step.IH)
      with Cons nsol pc eqs(2,5) show ?thesis by (subst bfs_loop.simps) simp
    qed
  qed
qed

lemma dfs_loop_agree:
  assumes inv: "bfs_inv P p0 s" and ag: "agree P P' (reachable P p0)"
  shows "dfs_loop P' s = dfs_loop P s"
proof (cases "dfs_loop P s")
  case (Some res)
  with dfs_loop_agree_le[OF Some inv ag] show ?thesis by simp
next
  case None
  show ?thesis
  proof (cases "dfs_loop P' s")
    case None
    with \<open>dfs_loop P s = None\<close> show ?thesis by simp
  next
    case (Some res)
    from dfs_loop_agree_le[OF Some bfs_inv_agree[OF ag inv] agree_sym[OF ag]] Some
    show ?thesis by simp
  qed
qed

lemma bfs_loop_agree:
  assumes inv: "bfs_inv P p0 s" and ag: "agree P P' (reachable P p0)"
  shows "bfs_loop P' s = bfs_loop P s"
proof (cases "bfs_loop P s")
  case (Some res)
  with bfs_loop_agree_le[OF Some inv ag] show ?thesis by simp
next
  case None
  show ?thesis
  proof (cases "bfs_loop P' s")
    case None
    with \<open>bfs_loop P s = None\<close> show ?thesis by simp
  next
    case (Some res)
    from bfs_loop_agree_le[OF Some bfs_inv_agree[OF ag inv] agree_sym[OF ag]] Some
    show ?thesis by simp
  qed
qed

lemma depth_first_solve_agree:
  assumes ag: "agree P P' (reachable P p)"
  shows "depth_first_solve P' p = depth_first_solve P p"
proof -
  note a = agreeD[OF ag reachable_refl]
  show ?thesis
  proof (cases "is_solved P p")
    case True
    with a have "is_solved P' p" by simp
    with True show ?thesis by (simp add: dfs_solved_initial)
  next
    case False
    with a have f': "\<not> is_solved P' p" by simp
    let ?s0 = "\<lparr>store = fst (dfs_seed p (extensions P p) ([], [])),
                 work = snd (dfs_seed p (extensions P p) ([], [])),
                 visited = {str P p}, expanded = [p]\<rparr>"
    have "bfs_inv P p ?s0" using dfs_inv_init[of P p] by (simp add: dfs_inv_def bfs_inv_def)
    from dfs_loop_agree[OF this ag] a show ?thesis
      unfolding depth_first_solve_unsolved[OF False] depth_first_solve_unsolved[OF f'] by simp
  qed
qed

lemma breadth_first_solve_agree:
  assumes ag: "agree P P' (reachable P p)"
  shows "breadth_first_solve P' p = breadth_first_solve P p"
proof -
  let ?s0 = "\<lparr>store = [\<lparr>puzzle = p, children = [], parent = None\<rparr>], work = [0], visited = {},
              expanded = []\<rparr>"
  have inv: "bfs_inv P p ?s0" by (simp add: bfs_inv_def wf_store_def)
  from bfs_loop_agree[OF inv ag] show ?thesis
    by (simp add: breadth_first_solve_def breadth_first_search_def new_PuzzleNode_def)
qed

section \<open>The claims\<close>

subsection \<open>C1: the returned path\<close>

text \<open>
  C1. For every puzzle on which either engine returns a node, the chain of states from
  the returned root to its descendant leaf satisfies: the first state is the initial
  state, the last state is solved, each consecutive pair is related by one application
  of \<open>extensions()\<close>, and after reconstruction the tree is a simple chain: every node
  on it has exactly one child (the next node, whose parent it is), except the solved
  leaf, which has none. \<open>solution_chain\<close> says all this of the list of the nodes of the
  chain, and the chain that starts at the returned root is unique.
\<close>

theorem C1_returned_path_is_solution_chain:
  assumes "depth_first_solve P p = Some (s, Some r) \<or> breadth_first_solve P p = Some (s, Some r)"
  shows "\<exists>path. hd path = r \<and> puzzle (store s ! r) = p \<and> parent (store s ! r) = None \<and>
                solution_chain P (store s) path \<and>
                (\<forall>path'. hd path' = r \<and> solution_chain P (store s) path' \<longrightarrow> path' = path)"
proof -
  from assms depth_first_solve_chain[of P p s r] breadth_first_solve_chain[of P p s r]
  obtain path where p: "hd path = r" "puzzle (store s ! r) = p" "parent (store s ! r) = None"
    "solution_chain P (store s) path" by blast
  moreover have "path' = path" if "hd path' = r \<and> solution_chain P (store s) path'" for path'
    using solution_chain_unique[of P "store s" path' path] that p by simp
  ultimately show ?thesis by blast
qed

theorem C1_returned_path_is_solution_chain_witness:
  "(\<exists>s r path. depth_first_solve WordLadder on_no = Some (s, Some r) \<and> hd path = r \<and>
       puzzle (store s ! r) = on_no \<and> parent (store s ! r) = None \<and>
       solution_chain WordLadder (store s) path) \<and>
   (\<exists>s r path. breadth_first_solve WordLadder on_no = Some (s, Some r) \<and> hd path = r \<and>
       puzzle (store s ! r) = on_no \<and> parent (store s ! r) = None \<and>
       solution_chain WordLadder (store s) path)"
proof -
  have "case depth_first_solve WordLadder on_no of Some (s, Some r) \<Rightarrow> True | _ \<Rightarrow> False"
    by code_simp
  then obtain s r where d: "depth_first_solve WordLadder on_no = Some (s, Some r)"
    by (auto split: option.splits)
  have "case breadth_first_solve WordLadder on_no of Some (s, Some r) \<Rightarrow> True | _ \<Rightarrow> False"
    by code_simp
  then obtain s' r' where b: "breadth_first_solve WordLadder on_no = Some (s', Some r')"
    by (auto split: option.splits)
  from C1_returned_path_is_solution_chain[of WordLadder on_no s r] d
       C1_returned_path_is_solution_chain[of WordLadder on_no s' r'] b
  show ?thesis by blast
qed

subsection \<open>C2: the breadth-first path is a shortest one\<close>

text \<open>
  C2, as the specification states it: for every puzzle for which \<open>breadth_first_solve\<close>
  returns a node, the returned path has the minimum number of edges among all solution
  paths from the initial state. The engine takes two states with the same string for
  one state, so this fails for a puzzle whose \<^verbatim>\<open>__str__\<close> is not injective. In the puzzle
  \<open>collide\<close> the states \<open>0\<close> and \<open>1\<close> have the same string: the extension \<open>1\<close> of
  \<open>0\<close> is never enqueued, and the search returns the path \<open>0, 2, 3, 4\<close> of three
  edges, although \<open>0, 1, 4\<close> is a solution path of two edges.
\<close>

theorem C2_colliding_strings_counterexample:
  "returned_states (breadth_first_solve collide 0) = Some [0, 2, 3, 4] \<and>
   extensions collide 0 = [1, 2] \<and> extensions collide 1 = [4] \<and> is_solved collide 4"
  by code_simp

text \<open>
  C2, amended: for every puzzle whose string form is injective on the states reachable
  from the initial state, if \<open>breadth_first_solve\<close> returns a node, then the returned
  path has the minimum number of edges among all solution paths from the initial state
  by repeated application of \<open>extensions()\<close>: whenever a solved state \<open>t\<close> is
  reachable in \<open>k\<close> steps, the returned chain has at most \<open>k + 1\<close> nodes.
\<close>

theorem C2_breadth_first_shortest:
  assumes "breadth_first_solve P p = Some (s, Some r)" and "inj_on (str P) (reachable P p)"
  shows "\<exists>path. hd path = r \<and> solution_chain P (store s) path \<and>
           (\<forall>k t. (p, t) \<in> succs P ^^ k \<and> is_solved P t \<longrightarrow> length path \<le> Suc k)"
  using assms by (rule breadth_first_solve_shortest)

theorem C2_breadth_first_shortest_witness:
  "inj_on (str WordLadder) (reachable WordLadder on_no) \<and>
   (\<exists>s r path. breadth_first_solve WordLadder on_no = Some (s, Some r) \<and> hd path = r \<and>
      solution_chain WordLadder (store s) path \<and>
      (on_no, on_no\<lparr>from_word := ''no''\<rparr>) \<in> succs WordLadder ^^ 2 \<and>
      is_solved WordLadder (on_no\<lparr>from_word := ''no''\<rparr>) \<and>
      length path \<le> Suc 2)"
proof -
  have h: "inj_on (str WordLadder) (reachable WordLadder on_no)" by (rule WordLadder_str_inj)
  have "case breadth_first_solve WordLadder on_no of Some (s, Some r) \<Rightarrow> True | _ \<Rightarrow> False"
    by code_simp
  then obtain s r where b: "breadth_first_solve WordLadder on_no = Some (s, Some r)"
    by (auto split: option.splits)
  have e1: "on_no\<lparr>from_word := ''oo''\<rparr> \<in> set (extensions WordLadder on_no)" by code_simp
  have e2: "on_no\<lparr>from_word := ''no''\<rparr> \<in> set (extensions WordLadder (on_no\<lparr>from_word := ''oo''\<rparr>))"
    by code_simp
  have "(on_no, on_no\<lparr>from_word := ''oo''\<rparr>) \<in> succs WordLadder"
       "(on_no\<lparr>from_word := ''oo''\<rparr>, on_no\<lparr>from_word := ''no''\<rparr>) \<in> succs WordLadder"
    using e1 e2 by (simp_all add: succs_def)
  then have "(on_no, on_no\<lparr>from_word := ''no''\<rparr>) \<in> succs WordLadder ^^ Suc (Suc 0)"
    by (auto intro: relcompI)
  then have two: "(on_no, on_no\<lparr>from_word := ''no''\<rparr>) \<in> succs WordLadder ^^ 2"
    by (simp only: numeral_2_eq_2)
  have sol: "is_solved WordLadder (on_no\<lparr>from_word := ''no''\<rparr>)" by code_simp
  from C2_breadth_first_shortest[OF b h] obtain path where
    p: "hd path = r" "solution_chain WordLadder (store s) path"
       "\<forall>k t. (on_no, t) \<in> succs WordLadder ^^ k \<and> is_solved WordLadder t \<longrightarrow> length path \<le> Suc k"
    by blast
  from p(3) two sol have "length path \<le> Suc 2" by blast
  with h b p(1,2) two sol show ?thesis by blast
qed

subsection \<open>C3: no state is expanded twice\<close>

text \<open>
  C3. In every single run of either engine, no state's canonical string form appears
  twice among the states the engine expands. \<open>depth_first_solve\<close> keeps this (lemma
  \<open>dfs_expanded_distinct\<close>). \<open>breadth_first_search\<close> does not: it tests
  \<^verbatim>\<open>str(ext) not in visited\<close> when it enqueues a node and adds to \<open>visited\<close> only
  when it dequeues one, and it expands every node it dequeues. On the word ladder from
  \<open>aa\<close> to \<open>cc\<close> over the words \<open>aa\<close>, \<open>ab\<close>, \<open>ac\<close>, the state \<open>ac\<close> is enqueued
  by \<open>aa\<close> and again by \<open>ab\<close>, and \<open>extensions()\<close> is called on it twice.
\<close>

theorem C3_bfs_expands_a_state_twice:
  "map_option (map (str WordLadder) \<circ> expanded \<circ> fst) (breadth_first_solve WordLadder aa_cc) =
     Some [''aa -> cc'', ''ab -> cc'', ''ac -> cc'', ''ac -> cc'']"
  by code_simp

subsection \<open>C4: an initial state that is already solved\<close>

text \<open>
  C4. For every puzzle whose initial state is already solved, both
  \<open>depth_first_solve\<close> and \<open>breadth_first_solve\<close> return a single-node path: the
  returned node is a root (no parent) with no children, and its state is the initial
  state.
\<close>

theorem C4_solved_initial_single_node:
  assumes "is_solved P p"
  shows "(\<exists>s r. depth_first_solve P p = Some (s, Some r) \<and>
                store s ! r = \<lparr>puzzle = p, children = [], parent = None\<rparr>) \<and>
         (\<exists>s r. breadth_first_solve P p = Some (s, Some r) \<and>
                store s ! r = \<lparr>puzzle = p, children = [], parent = None\<rparr>)"
  using dfs_solved_initial[OF assms] bfs_solved_initial[OF assms] by simp

theorem C4_solved_initial_single_node_witness:
  "is_solved WordLadder
     \<lparr>from_word = ''cost'', to_word = ''cost'',
      word_set = {''cost'', ''cast'', ''case'', ''cave'', ''save''}\<rparr> \<and>
   (\<exists>s r. depth_first_solve WordLadder
            \<lparr>from_word = ''cost'', to_word = ''cost'',
             word_set = {''cost'', ''cast'', ''case'', ''cave'', ''save''}\<rparr> = Some (s, Some r) \<and>
          store s ! r =
            \<lparr>puzzle = \<lparr>from_word = ''cost'', to_word = ''cost'',
                        word_set = {''cost'', ''cast'', ''case'', ''cave'', ''save''}\<rparr>,
             children = [], parent = None\<rparr>) \<and>
   (\<exists>s r. breadth_first_solve WordLadder
            \<lparr>from_word = ''cost'', to_word = ''cost'',
             word_set = {''cost'', ''cast'', ''case'', ''cave'', ''save''}\<rparr> = Some (s, Some r) \<and>
          store s ! r =
            \<lparr>puzzle = \<lparr>from_word = ''cost'', to_word = ''cost'',
                        word_set = {''cost'', ''cast'', ''case'', ''cave'', ''save''}\<rparr>,
             children = [], parent = None\<rparr>)"
proof -
  have h: "is_solved WordLadder
     \<lparr>from_word = ''cost'', to_word = ''cost'',
      word_set = {''cost'', ''cast'', ''case'', ''cave'', ''save''}\<rparr>"
    by (simp add: WordLadder_def WordLadderPuzzle_is_solved_def)
  show ?thesis using h C4_solved_initial_single_node[OF h] by blast
qed

subsection \<open>C5: the order of siblings in the depth-first search\<close>

text \<open>
  C5, as the specification states it: in \<open>depth_first_solve\<close>, among the siblings
  generated by expanding one node, the child visited first is the one that
  \<open>extensions()\<close> returned first. This fails for every node expanded inside the search
  loop, where \<^verbatim>\<open>appendleft\<close> puts each extension in front of the one before it. On the
  word ladder from \<open>aa\<close> to \<open>bb\<close> over the words \<open>ab\<close>, \<open>bb\<close>, \<open>cb\<close>, the
  extensions of \<open>ab\<close> are \<open>bb\<close>, \<open>cb\<close> in that order, and the search expands \<open>cb\<close>
  right after \<open>ab\<close>.
\<close>

theorem C5_last_extension_first_counterexample:
  "map from_word (extensions WordLadder (aa_bb\<lparr>from_word := ''ab''\<rparr>)) = [''bb'', ''cb''] \<and>
   map_option (map from_word \<circ> expanded \<circ> fst) (depth_first_solve WordLadder aa_bb) =
     Some [''aa'', ''ab'', ''cb'']"
  by code_simp

text \<open>
  C5, amended: in \<open>depth_first_solve\<close> the successors of the node just expanded are
  explored before the nodes that were already in the work list. The extensions of the
  initial state enter the work list in the order \<open>extensions()\<close> returned them, so the
  one returned first is visited first. The extensions of a node expanded inside the
  search loop enter it in the reverse order: the one \<open>extensions()\<close> returned last is
  at the left end, from which the next pass takes its node.
\<close>

theorem C5_dfs_sibling_order:
  "(\<not> is_solved P p \<longrightarrow>
      (\<exists>s0. depth_first_solve P p = dfs_loop P s0 \<and>
            map (\<lambda>a. puzzle (store s0 ! a)) (work s0) = extensions P p)) \<and>
   (work s = c # st \<and> (\<forall>a\<in>set st. a < length (store s)) \<and>
    str P (puzzle (store s ! c)) \<notin> visited s \<and> \<not> is_solved P (puzzle (store s ! c)) \<longrightarrow>
      dfs_loop P s = dfs_loop P (dfs_expand P (dfs_mark P s c st) c) \<and>
      map (\<lambda>a. puzzle (store (dfs_expand P (dfs_mark P s c st) c) ! a))
          (work (dfs_expand P (dfs_mark P s c st) c)) =
        rev (extensions P (puzzle (store s ! c))) @ map (\<lambda>a. puzzle (store s ! a)) st)"
proof (intro conjI impI)
  assume "\<not> is_solved P p"
  then show "\<exists>s0. depth_first_solve P p = dfs_loop P s0 \<and>
            map (\<lambda>a. puzzle (store s0 ! a)) (work s0) = extensions P p"
    using depth_first_solve_unsolved[of P p] dfs_seed_puzzles[of p "extensions P p"]
    by (intro exI[of _ "\<lparr>store = fst (dfs_seed p (extensions P p) ([], [])),
                 work = snd (dfs_seed p (extensions P p) ([], [])),
                 visited = {str P p}, expanded = [p]\<rparr>"]) simp
next
  assume a: "work s = c # st \<and> (\<forall>a\<in>set st. a < length (store s)) \<and>
    str P (puzzle (store s ! c)) \<notin> visited s \<and> \<not> is_solved P (puzzle (store s ! c))"
  then show "dfs_loop P s = dfs_loop P (dfs_expand P (dfs_mark P s c st) c)"
    by (subst dfs_loop.simps) simp
  from a show "map (\<lambda>a. puzzle (store (dfs_expand P (dfs_mark P s c st) c) ! a))
          (work (dfs_expand P (dfs_mark P s c st) c)) =
        rev (extensions P (puzzle (store s ! c))) @ map (\<lambda>a. puzzle (store s ! a)) st"
    using dfs_expand_puzzles[of st s P c] by simp
qed

theorem C5_dfs_sibling_order_witness:
  "(\<not> is_solved WordLadder aa_bb \<and>
    (\<exists>s0. depth_first_solve WordLadder aa_bb = dfs_loop WordLadder s0 \<and>
          map (\<lambda>a. puzzle (store s0 ! a)) (work s0) = extensions WordLadder aa_bb)) \<and>
   (work aa_bb_entry = 1 # [] \<and>
    str WordLadder (puzzle (store aa_bb_entry ! 1)) \<notin> visited aa_bb_entry \<and>
    \<not> is_solved WordLadder (puzzle (store aa_bb_entry ! 1))) \<and>
   (dfs_loop WordLadder aa_bb_entry =
      dfs_loop WordLadder (dfs_expand WordLadder (dfs_mark WordLadder aa_bb_entry 1 []) 1) \<and>
    map (\<lambda>a. puzzle (store (dfs_expand WordLadder (dfs_mark WordLadder aa_bb_entry 1 []) 1) ! a))
        (work (dfs_expand WordLadder (dfs_mark WordLadder aa_bb_entry 1 []) 1)) =
      rev (extensions WordLadder (puzzle (store aa_bb_entry ! 1))) @
      map (\<lambda>a. puzzle (store aa_bb_entry ! a)) []) \<and>
   map from_word (extensions WordLadder aa_bb) = [''ab''] \<and>
   map from_word (rev (extensions WordLadder (puzzle (store aa_bb_entry ! 1)))) = [''cb'', ''bb'']"
proof -
  have h1: "\<not> is_solved WordLadder aa_bb" by code_simp
  have h2: "work aa_bb_entry = 1 # [] \<and> (\<forall>a\<in>set []. a < length (store aa_bb_entry)) \<and>
      str WordLadder (puzzle (store aa_bb_entry ! 1)) \<notin> visited aa_bb_entry \<and>
      \<not> is_solved WordLadder (puzzle (store aa_bb_entry ! 1))"
    by (simp add: WordLadder_def WordLadderPuzzle_str_def WordLadderPuzzle_is_solved_def
                  aa_bb_def aa_bb_entry_def)
  have e1: "map from_word (extensions WordLadder aa_bb) = [''ab'']" by code_simp
  have e2: "map from_word (rev (extensions WordLadder (puzzle (store aa_bb_entry ! 1)))) =
              [''cb'', ''bb'']"
    by code_simp
  note t = C5_dfs_sibling_order[of WordLadder aa_bb aa_bb_entry 1 "[]"]
  have a: "\<exists>s0. depth_first_solve WordLadder aa_bb = dfs_loop WordLadder s0 \<and>
          map (\<lambda>a. puzzle (store s0 ! a)) (work s0) = extensions WordLadder aa_bb"
    by (rule mp[OF conjunct1[OF t] h1])
  have b: "dfs_loop WordLadder aa_bb_entry =
      dfs_loop WordLadder (dfs_expand WordLadder (dfs_mark WordLadder aa_bb_entry 1 []) 1) \<and>
    map (\<lambda>a. puzzle (store (dfs_expand WordLadder (dfs_mark WordLadder aa_bb_entry 1 []) 1) ! a))
        (work (dfs_expand WordLadder (dfs_mark WordLadder aa_bb_entry 1 []) 1)) =
      rev (extensions WordLadder (puzzle (store aa_bb_entry ! 1))) @
      map (\<lambda>a. puzzle (store aa_bb_entry ! a)) []"
    by (rule mp[OF conjunct2[OF t] h2])
  have h2': "work aa_bb_entry = 1 # [] \<and>
      str WordLadder (puzzle (store aa_bb_entry ! 1)) \<notin> visited aa_bb_entry \<and>
      \<not> is_solved WordLadder (puzzle (store aa_bb_entry ! 1))"
    using h2 by (intro conjI) (elim conjE, assumption)+
  show ?thesis
    by (rule conjI[OF conjI[OF h1 a] conjI[OF h2' conjI[OF b conjI[OF e1 e2]]]])
qed

subsection \<open>C6: a word ladder whose two words are equal\<close>

text \<open>
  C6, as the specification states it: for every word-ladder puzzle whose \<open>from_word\<close>
  equals its \<open>to_word\<close>, both engines return a 1-state path without calling
  \<open>extensions()\<close> on any state. This fails for \<open>breadth_first_solve\<close>, whose loop
  calls \<open>extensions()\<close> on the node it has taken from the queue before it tests
  \<open>is_solved()\<close>: on the puzzle from \<open>cost\<close> to \<open>cost\<close> of the doctest of
  \<open>WordLadderPuzzle.is_solved\<close>, the calls of \<open>extensions()\<close> are one call, on the
  initial state.
\<close>

theorem C6_bfs_calls_extensions_counterexample:
  "map_option (expanded \<circ> fst)
     (breadth_first_solve WordLadder
        \<lparr>from_word = ''cost'', to_word = ''cost'',
         word_set = {''cost'', ''cast'', ''case'', ''cave'', ''save''}\<rparr>) =
   Some [\<lparr>from_word = ''cost'', to_word = ''cost'',
          word_set = {''cost'', ''cast'', ''case'', ''cave'', ''save''}\<rparr>]"
  by (subst bfs_solved_initial)
     (simp_all add: WordLadder_def WordLadderPuzzle_is_solved_def)

text \<open>
  C6, amended: for every word-ladder puzzle whose \<open>from_word\<close> equals its \<open>to_word\<close>,
  both engines return a 1-state path (a root with no children that holds the initial
  state). \<open>depth_first_solve\<close> returns it without calling \<open>extensions()\<close> on any
  state; \<open>breadth_first_solve\<close> calls \<open>extensions()\<close> exactly once, on the initial
  state.
\<close>

theorem C6_word_ladder_already_solved:
  assumes "from_word w = to_word w"
  shows "(\<exists>s r. depth_first_solve WordLadder w = Some (s, Some r) \<and>
                store s ! r = \<lparr>puzzle = w, children = [], parent = None\<rparr> \<and>
                expanded s = []) \<and>
         (\<exists>s r. breadth_first_solve WordLadder w = Some (s, Some r) \<and>
                store s ! r = \<lparr>puzzle = w, children = [], parent = None\<rparr> \<and>
                expanded s = [w])"
proof -
  have h: "is_solved WordLadder w"
    using assms by (simp add: WordLadder_def WordLadderPuzzle_is_solved_def)
  show ?thesis
    using dfs_solved_initial[OF h] bfs_solved_initial[OF h] by simp
qed

theorem C6_word_ladder_already_solved_witness:
  "from_word \<lparr>from_word = ''cost'', to_word = ''cost'',
              word_set = {''cost'', ''cast'', ''case'', ''cave'', ''save''}\<rparr> =
   to_word \<lparr>from_word = ''cost'', to_word = ''cost'',
            word_set = {''cost'', ''cast'', ''case'', ''cave'', ''save''}\<rparr> \<and>
   (\<exists>s r. breadth_first_solve WordLadder
            \<lparr>from_word = ''cost'', to_word = ''cost'',
             word_set = {''cost'', ''cast'', ''case'', ''cave'', ''save''}\<rparr> = Some (s, Some r) \<and>
          expanded s =
            [\<lparr>from_word = ''cost'', to_word = ''cost'',
              word_set = {''cost'', ''cast'', ''case'', ''cave'', ''save''}\<rparr>])"
  using C6_word_ladder_already_solved
          [of "\<lparr>from_word = ''cost'', to_word = ''cost'',
                word_set = {''cost'', ''cast'', ''case'', ''cave'', ''save''}\<rparr>"]
  by auto

subsection \<open>C7: the no-solution signal\<close>

text \<open>
  C7. For every puzzle whose initial state is not solved and whose \<open>extensions()\<close>
  returns an empty sequence, both engines return the no-solution signal: they return
  (the outer \<open>Some\<close>) the value \<open>None\<close>, and no error. More generally, whenever the work
  list is empty at the head of the search loop, each engine leaves the loop and returns
  that value, and \<open>breadth_first_solve\<close> passes the \<open>None\<close> of
  \<open>breadth_first_search\<close> on.
\<close>

theorem C7_no_solution_signal:
  "(\<not> is_solved P p \<and> extensions P p = [] \<longrightarrow>
      (\<exists>s. depth_first_solve P p = Some (s, None)) \<and>
      (\<exists>s. breadth_first_solve P p = Some (s, None))) \<and>
   (work s = [] \<longrightarrow> dfs_loop P s = Some (s, None) \<and> bfs_loop P s = Some (s, None)) \<and>
   (breadth_first_search P [\<lparr>puzzle = p, children = [], parent = None\<rparr>] 0 = Some (s', None) \<longrightarrow>
      breadth_first_solve P p = Some (s', None))"
proof (intro conjI impI)
  assume a: "\<not> is_solved P p \<and> extensions P p = []"
  then show "\<exists>s. depth_first_solve P p = Some (s, None)"
    using dfs_no_extensions[of P p] by simp
  from a show "\<exists>s. breadth_first_solve P p = Some (s, None)"
    using bfs_no_extensions[of P p] by simp
next
  assume "work s = []"
  then show "dfs_loop P s = Some (s, None)" by (subst dfs_loop.simps) simp
next
  assume "work s = []"
  then show "bfs_loop P s = Some (s, None)" by (subst bfs_loop.simps) simp
next
  assume "breadth_first_search P [\<lparr>puzzle = p, children = [], parent = None\<rparr>] 0 = Some (s', None)"
  then show "breadth_first_solve P p = Some (s', None)"
    by (simp add: breadth_first_solve_def new_PuzzleNode_def)
qed

theorem C7_no_solution_signal_witness:
  "(\<not> is_solved WordLadder \<lparr>from_word = ''on'', to_word = ''no'', word_set = {''on'', ''no''}\<rparr> \<and>
    extensions WordLadder \<lparr>from_word = ''on'', to_word = ''no'', word_set = {''on'', ''no''}\<rparr> = []) \<and>
   (\<exists>s. depth_first_solve WordLadder
           \<lparr>from_word = ''on'', to_word = ''no'', word_set = {''on'', ''no''}\<rparr> = Some (s, None)) \<and>
   (\<exists>s. breadth_first_solve WordLadder
           \<lparr>from_word = ''on'', to_word = ''no'', word_set = {''on'', ''no''}\<rparr> = Some (s, None)) \<and>
   work \<lparr>store = [], work = [], visited = {}, expanded = []\<rparr> = [] \<and>
   dfs_loop WordLadder \<lparr>store = [], work = [], visited = {}, expanded = []\<rparr> =
     Some (\<lparr>store = [], work = [], visited = {}, expanded = []\<rparr>, None) \<and>
   breadth_first_search WordLadder
     [\<lparr>puzzle = \<lparr>from_word = ''on'', to_word = ''no'', word_set = {''on'', ''no''}\<rparr>,
       children = [], parent = None\<rparr>] 0 =
     Some (\<lparr>store = [\<lparr>puzzle = \<lparr>from_word = ''on'', to_word = ''no'', word_set = {''on'', ''no''}\<rparr>,
                       children = [], parent = None\<rparr>],
            work = [], visited = {''on -> no''},
            expanded = [\<lparr>from_word = ''on'', to_word = ''no'', word_set = {''on'', ''no''}\<rparr>]\<rparr>,
           None) \<and>
   breadth_first_solve WordLadder \<lparr>from_word = ''on'', to_word = ''no'', word_set = {''on'', ''no''}\<rparr> =
     Some (\<lparr>store = [\<lparr>puzzle = \<lparr>from_word = ''on'', to_word = ''no'', word_set = {''on'', ''no''}\<rparr>,
                       children = [], parent = None\<rparr>],
            work = [], visited = {''on -> no''},
            expanded = [\<lparr>from_word = ''on'', to_word = ''no'', word_set = {''on'', ''no''}\<rparr>]\<rparr>,
           None)"
proof -
  let ?w = "\<lparr>from_word = ''on'', to_word = ''no'', word_set = {''on'', ''no''}\<rparr>"
  let ?s = "\<lparr>store = [], work = [], visited = {}, expanded = []\<rparr> :: WordLadderPuzzle search"
  let ?s' = "\<lparr>store = [\<lparr>puzzle = ?w, children = [], parent = None\<rparr>],
              work = [], visited = {''on -> no''}, expanded = [?w]\<rparr>"
  have h1: "\<not> is_solved WordLadder ?w \<and> extensions WordLadder ?w = []"
    by code_simp
  have h2: "work ?s = []" by simp
  have h3: "breadth_first_search WordLadder [\<lparr>puzzle = ?w, children = [], parent = None\<rparr>] 0 =
              Some (?s', None)"
    by code_simp
  show ?thesis
    using h1 h2 h3 C7_no_solution_signal[of WordLadder ?w ?s ?s'] by simp
qed

subsection \<open>C8: termination of the depth-first search\<close>

text \<open>
  C8. For every puzzle whose set of states reachable from the initial state by repeated
  \<open>extensions()\<close> is finite, \<open>depth_first_solve\<close> terminates: it returns either a node
  or the no-solution signal.
\<close>

theorem C8_depth_first_solve_terminates:
  assumes "finite (reachable P p)"
  shows "\<exists>s r. depth_first_solve P p = Some (s, r)"
  using depth_first_solve_terminates[OF assms] by auto

theorem C8_depth_first_solve_terminates_witness:
  "finite (reachable WordLadder aa_bb) \<and> (\<exists>s r. depth_first_solve WordLadder aa_bb = Some (s, r))"
proof -
  have "finite (word_set aa_bb)" by (simp add: aa_bb_def)
  then have h: "finite (reachable WordLadder aa_bb)" by (rule WordLadder_reachable_finite)
  show ?thesis using h C8_depth_first_solve_terminates[OF h] by simp
qed

subsection \<open>C9: determinism\<close>

text \<open>
  C9. Both engines are deterministic. An engine is a function of the initial state and
  of the methods of the puzzle, and of these methods only their results on the states
  reachable from the initial state matter: two calls of the same engine on an identical
  initial state, where \<open>is_solved()\<close>, \<open>extensions()\<close> (with the order of its
  output) and \<open>str()\<close> return the same on every reachable state, give identical
  results, that is the same returned node with the same tree of states in the same
  order, the same no-solution signal, or no return in both.
\<close>

theorem C9_engines_deterministic:
  assumes "\<forall>t\<in>reachable P p. is_solved P' t = is_solved P t \<and>
             extensions P' t = extensions P t \<and> str P' t = str P t"
  shows "depth_first_solve P' p = depth_first_solve P p \<and>
         breadth_first_solve P' p = breadth_first_solve P p"
proof -
  from assms have "agree P P' (reachable P p)" by (simp add: agree_def)
  then show ?thesis by (simp add: depth_first_solve_agree breadth_first_solve_agree)
qed

theorem C9_engines_deterministic_witness:
  "depth_first_solve WordLadder_other on_no = depth_first_solve WordLadder on_no \<and>
   breadth_first_solve WordLadder_other on_no = breadth_first_solve WordLadder on_no \<and>
   is_solved WordLadder_other aa_bb \<and> \<not> is_solved WordLadder aa_bb"
proof -
  have h: "\<forall>t\<in>reachable WordLadder on_no.
             is_solved WordLadder_other t = is_solved WordLadder t \<and>
             extensions WordLadder_other t = extensions WordLadder t \<and>
             str WordLadder_other t = str WordLadder t"
  proof
    fix t assume "t \<in> reachable WordLadder on_no"
    from WordLadder_reachable[OF this] have "to_word t = ''no''" by (simp add: on_no_def)
    then show "is_solved WordLadder_other t = is_solved WordLadder t \<and>
             extensions WordLadder_other t = extensions WordLadder t \<and>
             str WordLadder_other t = str WordLadder t"
      by (simp add: WordLadder_other_def WordLadder_def)
  qed
  have d: "is_solved WordLadder_other aa_bb \<and> \<not> is_solved WordLadder aa_bb" by code_simp
  from C9_engines_deterministic[OF h] d show ?thesis by simp
qed

subsection \<open>C10: equality of search tree nodes\<close>

text \<open>
  C10. \<open>PuzzleNode\<close> equality ignores the \<open>parent\<close> field and the order and the
  multiplicity of the children. When \<^verbatim>\<open>__eq__\<close> returns a value, the value is true iff
  the other object is a \<open>PuzzleNode\<close>, the puzzles are equal, and every child of each
  node is contained in the children list of the other node: it is one of the items of
  that list, or an item of that list compares equal to it. Hence a node with a child
  that is not contained in the children of the other node never compares equal to it,
  and compares unequal when the children are below their parents (no cycle) and the
  recursion limit is above the number of nodes; under the same condition \<^verbatim>\<open>__eq__\<close>
  returns a value. The result is the same in two stores that differ only in the
  \<open>parent\<close> fields. Two nodes with equal puzzles and the same children, in any order and
  number and whatever the parents, never compare unequal; they compare equal when the
  children are below their parents and the recursion limit is above the number of
  nodes.
\<close>

theorem C10_PuzzleNode_eq:
  "(PuzzleNode_eq (Suc d) P h a other = Some r \<longrightarrow>
      r = (\<exists>b. other = Node b \<and> eq P (puzzle (h ! a)) (puzzle (h ! b)) \<and>
               (\<forall>x\<in>set (children (h ! b)). \<exists>e\<in>set (children (h ! a)).
                   e = x \<or> PuzzleNode_eq d P h e (Node x) = Some True) \<and>
               (\<forall>x\<in>set (children (h ! a)). \<exists>e\<in>set (children (h ! b)).
                   e = x \<or> PuzzleNode_eq d P h e (Node x) = Some True))) \<and>
   ((x \<in> set (children (h ! b)) \<and>
     (\<forall>e\<in>set (children (h ! a)). e \<noteq> x \<and> PuzzleNode_eq d P h e (Node x) \<noteq> Some True)) \<or>
    (x \<in> set (children (h ! a)) \<and>
     (\<forall>e\<in>set (children (h ! b)). e \<noteq> x \<and> PuzzleNode_eq d P h e (Node x) \<noteq> Some True)) \<longrightarrow>
      PuzzleNode_eq (Suc d) P h a (Node b) \<noteq> Some True \<and>
      (acyclic_store h \<and> a < length h \<and> b < length h \<and> length h \<le> d \<longrightarrow>
         PuzzleNode_eq (Suc d) P h a (Node b) = Some False)) \<and>
   (acyclic_store h \<and> a < length h \<and> b < length h \<and> length h < d \<longrightarrow>
      PuzzleNode_eq d P h a (Node b) \<noteq> None) \<and>
   (same_but_parents h h' \<and> closed_store h \<and> a < length h \<and> b < length h \<longrightarrow>
      PuzzleNode_eq d P h' a (Node b) = PuzzleNode_eq d P h a (Node b)) \<and>
   (eq P (puzzle (h ! a)) (puzzle (h ! b)) \<and> set (children (h ! a)) = set (children (h ! b)) \<longrightarrow>
      PuzzleNode_eq d P h a (Node b) \<noteq> Some False) \<and>
   (eq P (puzzle (h ! a)) (puzzle (h ! b)) \<and> set (children (h ! a)) = set (children (h ! b)) \<and>
    acyclic_store h \<and> a < length h \<and> b < length h \<and> length h < d \<longrightarrow>
      PuzzleNode_eq d P h a (Node b) = Some True)"
proof -
  have 1: "PuzzleNode_eq (Suc d) P h a other = Some r \<longrightarrow>
      r = (\<exists>b. other = Node b \<and> eq P (puzzle (h ! a)) (puzzle (h ! b)) \<and>
               (\<forall>x\<in>set (children (h ! b)). \<exists>e\<in>set (children (h ! a)).
                   e = x \<or> PuzzleNode_eq d P h e (Node x) = Some True) \<and>
               (\<forall>x\<in>set (children (h ! a)). \<exists>e\<in>set (children (h ! b)).
                   e = x \<or> PuzzleNode_eq d P h e (Node x) = Some True))"
    by (rule impI) (rule PuzzleNode_eq_iff)
  have 2: "(x \<in> set (children (h ! b)) \<and>
     (\<forall>e\<in>set (children (h ! a)). e \<noteq> x \<and> PuzzleNode_eq d P h e (Node x) \<noteq> Some True)) \<or>
    (x \<in> set (children (h ! a)) \<and>
     (\<forall>e\<in>set (children (h ! b)). e \<noteq> x \<and> PuzzleNode_eq d P h e (Node x) \<noteq> Some True)) \<longrightarrow>
      PuzzleNode_eq (Suc d) P h a (Node b) \<noteq> Some True \<and>
      (acyclic_store h \<and> a < length h \<and> b < length h \<and> length h \<le> d \<longrightarrow>
         PuzzleNode_eq (Suc d) P h a (Node b) = Some False)"
  proof (intro impI conjI)
    assume n: "(x \<in> set (children (h ! b)) \<and>
     (\<forall>e\<in>set (children (h ! a)). e \<noteq> x \<and> PuzzleNode_eq d P h e (Node x) \<noteq> Some True)) \<or>
    (x \<in> set (children (h ! a)) \<and>
     (\<forall>e\<in>set (children (h ! b)). e \<noteq> x \<and> PuzzleNode_eq d P h e (Node x) \<noteq> Some True))"
    then have n': "(\<exists>x\<in>set (children (h ! b)). \<forall>e\<in>set (children (h ! a)).
               e \<noteq> x \<and> PuzzleNode_eq d P h e (Node x) \<noteq> Some True) \<or>
           (\<exists>x\<in>set (children (h ! a)). \<forall>e\<in>set (children (h ! b)).
               e \<noteq> x \<and> PuzzleNode_eq d P h e (Node x) \<noteq> Some True)"
      by blast
    then show t: "PuzzleNode_eq (Suc d) P h a (Node b) \<noteq> Some True"
      by (rule PuzzleNode_eq_not_contained)
    assume a: "acyclic_store h \<and> a < length h \<and> b < length h \<and> length h \<le> d"
    then have "length h - min a b < Suc d" by linarith
    then have "PuzzleNode_eq (Suc d) P h a (Node b) \<noteq> None"
      using a by (intro PuzzleNode_eq_total) simp_all
    with t show "PuzzleNode_eq (Suc d) P h a (Node b) = Some False"
      by (cases "PuzzleNode_eq (Suc d) P h a (Node b)") auto
  qed
  have 3: "acyclic_store h \<and> a < length h \<and> b < length h \<and> length h < d \<longrightarrow>
      PuzzleNode_eq d P h a (Node b) \<noteq> None"
  proof
    assume a: "acyclic_store h \<and> a < length h \<and> b < length h \<and> length h < d"
    then have "length h - min a b < d" by linarith
    then show "PuzzleNode_eq d P h a (Node b) \<noteq> None"
      using a by (intro PuzzleNode_eq_total) simp_all
  qed
  have 4: "same_but_parents h h' \<and> closed_store h \<and> a < length h \<and> b < length h \<longrightarrow>
      PuzzleNode_eq d P h' a (Node b) = PuzzleNode_eq d P h a (Node b)"
  proof
    assume a: "same_but_parents h h' \<and> closed_store h \<and> a < length h \<and> b < length h"
    show "PuzzleNode_eq d P h' a (Node b) = PuzzleNode_eq d P h a (Node b)"
      by (rule PuzzleNode_eq_parents) (use a in simp_all)
  qed
  have 5: "eq P (puzzle (h ! a)) (puzzle (h ! b)) \<and> set (children (h ! a)) = set (children (h ! b)) \<longrightarrow>
      PuzzleNode_eq d P h a (Node b) \<noteq> Some False"
    by (simp add: PuzzleNode_eq_same_children)
  have 6: "eq P (puzzle (h ! a)) (puzzle (h ! b)) \<and> set (children (h ! a)) = set (children (h ! b)) \<and>
    acyclic_store h \<and> a < length h \<and> b < length h \<and> length h < d \<longrightarrow>
      PuzzleNode_eq d P h a (Node b) = Some True"
  proof
    assume a: "eq P (puzzle (h ! a)) (puzzle (h ! b)) \<and> set (children (h ! a)) = set (children (h ! b)) \<and>
      acyclic_store h \<and> a < length h \<and> b < length h \<and> length h < d"
    then have "PuzzleNode_eq d P h a (Node b) \<noteq> Some False"
      by (simp add: PuzzleNode_eq_same_children)
    moreover have "length h - min a b < d" using a by linarith
    then have "PuzzleNode_eq d P h a (Node b) \<noteq> None"
      using a by (intro PuzzleNode_eq_total) simp_all
    ultimately show "PuzzleNode_eq d P h a (Node b) = Some True"
      by (cases "PuzzleNode_eq d P h a (Node b)") auto
  qed
  show ?thesis
    by (rule conjI[OF 1 conjI[OF 2 conjI[OF 3 conjI[OF 4 conjI[OF 5 6]]]]])
qed

theorem C10_PuzzleNode_eq_witness:
  "PuzzleNode_eq 6 WordLadder eq_store 0 (Node 1) = Some True \<and>
   PuzzleNode_eq 6 WordLadder eq_store 0 (Node 2) = Some False \<and>
   (4 \<in> set (children (eq_store ! 0)) \<and> children (eq_store ! 2) = [3] \<and>
    PuzzleNode_eq 5 WordLadder eq_store 3 (Node 4) = Some False) \<and>
   (same_but_parents eq_store eq_store' \<and> closed_store eq_store \<and>
    0 < length eq_store \<and> 1 < length eq_store \<and> 2 < length eq_store) \<and>
   PuzzleNode_eq 6 WordLadder eq_store' 0 (Node 1) = PuzzleNode_eq 6 WordLadder eq_store 0 (Node 1) \<and>
   (eq WordLadder (puzzle (eq_store ! 0)) (puzzle (eq_store ! 1)) \<and>
    set (children (eq_store ! 0)) = set (children (eq_store ! 1)) \<and>
    acyclic_store eq_store \<and> length eq_store < 6) \<and>
   PuzzleNode_eq 6 WordLadder eq_store 0 (Node 1) \<noteq> Some False \<and>
   PuzzleNode_eq 6 WordLadder eq_store 0 (Node 1) \<noteq> None"
proof -
  note t = C10_PuzzleNode_eq[of 5 WordLadder eq_store 0 "Node 2" False 4 2 eq_store']
  note u = C10_PuzzleNode_eq[of 6 WordLadder eq_store 0 "Node 1" True 4 1 eq_store']
  have h1: "4 \<in> set (children (eq_store ! 0)) \<and> children (eq_store ! 2) = [3] \<and>
    PuzzleNode_eq 5 WordLadder eq_store 3 (Node 4) = Some False"
    by code_simp
  have h2: "same_but_parents eq_store eq_store' \<and> closed_store eq_store \<and>
    0 < length eq_store \<and> 1 < length eq_store \<and> 2 < length eq_store"
    by code_simp
  have h3: "eq WordLadder (puzzle (eq_store ! 0)) (puzzle (eq_store ! 1)) \<and>
    set (children (eq_store ! 0)) = set (children (eq_store ! 1)) \<and>
    acyclic_store eq_store \<and> length eq_store < 6"
    by code_simp
  have l5: "length eq_store \<le> 5" by code_simp
  have n: "(4 \<in> set (children (eq_store ! 2)) \<and>
     (\<forall>e\<in>set (children (eq_store ! 0)).
        e \<noteq> 4 \<and> PuzzleNode_eq 5 WordLadder eq_store e (Node 4) \<noteq> Some True)) \<or>
    (4 \<in> set (children (eq_store ! 0)) \<and>
     (\<forall>e\<in>set (children (eq_store ! 2)).
        e \<noteq> 4 \<and> PuzzleNode_eq 5 WordLadder eq_store e (Node 4) \<noteq> Some True))"
    using h1 by simp
  have ac: "acyclic_store eq_store \<and> 0 < length eq_store \<and> 2 < length eq_store \<and>
    length eq_store \<le> 5"
    using h2 h3 l5 by simp
  have c2: "PuzzleNode_eq (Suc 5) WordLadder eq_store 0 (Node 2) = Some False"
    by (rule mp[OF conjunct2[OF mp[OF conjunct1[OF conjunct2[OF t]] n]] ac])
  have c1: "False = (\<exists>b. Node 2 = Node b \<and>
       eq WordLadder (puzzle (eq_store ! 0)) (puzzle (eq_store ! b)) \<and>
       (\<forall>x\<in>set (children (eq_store ! b)). \<exists>e\<in>set (children (eq_store ! 0)).
           e = x \<or> PuzzleNode_eq 5 WordLadder eq_store e (Node x) = Some True) \<and>
       (\<forall>x\<in>set (children (eq_store ! 0)). \<exists>e\<in>set (children (eq_store ! b)).
           e = x \<or> PuzzleNode_eq 5 WordLadder eq_store e (Node x) = Some True))"
    by (rule mp[OF conjunct1[OF t] c2])
  have s: "(6::nat) = Suc 5" by simp
  have w2: "PuzzleNode_eq 6 WordLadder eq_store 0 (Node 2) = Some False"
    by (subst s) (rule c2)
  have h3': "eq WordLadder (puzzle (eq_store ! 0)) (puzzle (eq_store ! 1)) \<and>
    set (children (eq_store ! 0)) = set (children (eq_store ! 1)) \<and>
    acyclic_store eq_store \<and> 0 < length eq_store \<and> 1 < length eq_store \<and> length eq_store < 6"
    using h2 h3 by simp
  have h3'': "acyclic_store eq_store \<and> 0 < length eq_store \<and> 1 < length eq_store \<and>
    length eq_store < 6"
    using h3' by simp
  have h2': "same_but_parents eq_store eq_store' \<and> closed_store eq_store \<and>
    0 < length eq_store \<and> 1 < length eq_store"
    using h2 by simp
  have h5: "eq WordLadder (puzzle (eq_store ! 0)) (puzzle (eq_store ! 1)) \<and>
    set (children (eq_store ! 0)) = set (children (eq_store ! 1))"
    using h3 by simp
  have c3: "PuzzleNode_eq 6 WordLadder eq_store 0 (Node 1) \<noteq> None"
    by (rule mp[OF conjunct1[OF conjunct2[OF conjunct2[OF u]]] h3''])
  have c4: "PuzzleNode_eq 6 WordLadder eq_store' 0 (Node 1) =
            PuzzleNode_eq 6 WordLadder eq_store 0 (Node 1)"
    by (rule mp[OF conjunct1[OF conjunct2[OF conjunct2[OF conjunct2[OF u]]]] h2'])
  have c5: "PuzzleNode_eq 6 WordLadder eq_store 0 (Node 1) \<noteq> Some False"
    by (rule mp[OF conjunct1[OF conjunct2[OF conjunct2[OF conjunct2[OF conjunct2[OF u]]]]] h5])
  have c6: "PuzzleNode_eq 6 WordLadder eq_store 0 (Node 1) = Some True"
    by (rule mp[OF conjunct2[OF conjunct2[OF conjunct2[OF conjunct2[OF conjunct2[OF u]]]]] h3'])
  show ?thesis
    by (rule conjI[OF c6 conjI[OF w2 conjI[OF h1 conjI[OF h2 conjI[OF c4 conjI[OF h3 conjI[OF c5 c3]]]]]]])
qed

end
